theory Spec2Isabelle
  imports Complex_Main "HOL-Library.Word" "HOL-Library.Monad_Syntax"
begin

text \<open>
  PolyFit.cpp fits a polynomial to sample points by least squares. It has three
  functions: \<^verbatim>\<open>LUPDecompose\<close> factors a square matrix in place with partial pivoting,
  \<^verbatim>\<open>LUPSolve\<close> solves a linear system with that factorisation, and \<^verbatim>\<open>polyFit\<close> builds
  the normal equations of the fit and solves them. This theory embeds the three
  functions, statement by statement, and proves properties of them.
\<close>

section \<open>The arithmetic of \<^verbatim>\<open>double\<close>\<close>

text \<open>
  PolyFit.cpp computes on \<^verbatim>\<open>double\<close>. What \<^verbatim>\<open>+\<close>, \<^verbatim>\<open>-\<close>, \<^verbatim>\<open>*\<close>, \<^verbatim>\<open>/\<close>,
  \<^verbatim>\<open>fabs\<close>, \<^verbatim>\<open>>\<close> and \<^verbatim>\<open><\<close> do on that type is fixed by the compiler and the
  hardware, not by the repository, so the embedding takes it as a parameter: a record
  of the operations and of the three literals the source writes (\<^verbatim>\<open>0\<close>, \<^verbatim>\<open>1\<close> and
  \<^verbatim>\<open>1e-12\<close>). Nothing is assumed about the operations; a theorem that needs a law of
  arithmetic states it as a hypothesis. Each operator of the source is one application
  of the corresponding operation.
\<close>

record 'a arith =
  lit0 :: 'a
  lit1 :: 'a
  lit_tol :: 'a
  fadd :: "'a \<Rightarrow> 'a \<Rightarrow> 'a"
  fsub :: "'a \<Rightarrow> 'a \<Rightarrow> 'a"
  fmul :: "'a \<Rightarrow> 'a \<Rightarrow> 'a"
  fdiv :: "'a \<Rightarrow> 'a \<Rightarrow> 'a"
  fabs :: "'a \<Rightarrow> 'a"
  fgt :: "'a \<Rightarrow> 'a \<Rightarrow> bool"
  flt :: "'a \<Rightarrow> 'a \<Rightarrow> bool"

text \<open>
  Exact arithmetic on the reals, with \<^verbatim>\<open>1e-12\<close> read as \<open>1 / 10 ^ 12\<close>: the instance
  on which the hypotheses about the arithmetic are shown to be satisfiable, and in which
  the failing inputs are run.
\<close>

definition real_arith :: "real arith" where
  "real_arith =
     \<lparr>lit0 = 0, lit1 = 1, lit_tol = 1 / 10 ^ 12,
      fadd = (\<lambda>a b. a + b), fsub = (\<lambda>a b. a - b), fmul = (\<lambda>a b. a * b),
      fdiv = (\<lambda>a b. a / b), fabs = (\<lambda>a. \<bar>a\<bar>),
      fgt = (\<lambda>a b. a > b), flt = (\<lambda>a b. a < b)\<rparr>"

section \<open>Vectors and loops\<close>

text \<open>
  A \<^verbatim>\<open>std::vector\<close> is a list. \<^verbatim>\<open>operator[]\<close> is unchecked in C++: an index out of
  range is undefined behaviour. Every access of the source is a checked access of the
  model, and \<open>None\<close> is the outcome "no defined result". Values of type
  \<^verbatim>\<open>unsigned int\<close> are naturals below \<open>2 ^ 32\<close>; where the source's arithmetic can
  leave that range the wrap-around is written out.
\<close>

type_synonym 'a matrix = "'a list list"

definition rd :: "'a list \<Rightarrow> nat \<Rightarrow> 'a option" where
  "rd v i = (if i < length v then Some (v ! i) else None)"

definition wr :: "'a list \<Rightarrow> nat \<Rightarrow> 'a \<Rightarrow> 'a list option" where
  "wr v i a = (if i < length v then Some (v[i := a]) else None)"

definition rd2 :: "'a matrix \<Rightarrow> nat \<Rightarrow> nat \<Rightarrow> 'a option" where
  "rd2 A j k = do { row \<leftarrow> rd A j; rd row k }"

definition wr2 :: "'a matrix \<Rightarrow> nat \<Rightarrow> nat \<Rightarrow> 'a \<Rightarrow> 'a matrix option" where
  "wr2 A j k a = do { row \<leftarrow> rd A j; row' \<leftarrow> wr row k a; wr A j row' }"

text \<open>
  \<^verbatim>\<open>for (k = a; k < b; k++) body\<close>, where the body changes neither \<^verbatim>\<open>k\<close> nor the
  bound, runs the body for each \<open>k\<close> of \<open>[a..<b]\<close> in turn on the state.
\<close>

fun for_loop :: "nat list \<Rightarrow> (nat \<Rightarrow> 's \<Rightarrow> 's option) \<Rightarrow> 's \<Rightarrow> 's option" where
  "for_loop [] body s = Some s"
| "for_loop (k # ks) body s =
     (case body k s of None \<Rightarrow> None | Some s' \<Rightarrow> for_loop ks body s')"

section \<open>LUPDecompose\<close>

text \<open>
  The pivot search of lines 22-30:
  \<^verbatim>\<open>maxA = 0.0; imax = i;
  for (k = i; k < N; k++)
    if ((absA = fabs(A[k][i])) > maxA) { maxA = absA; imax = k; }\<close>
\<close>

definition scan_step :: "'a arith \<Rightarrow> 'a matrix \<Rightarrow> nat \<Rightarrow> nat \<Rightarrow> 'a \<times> nat \<Rightarrow> ('a \<times> nat) option" where
  "scan_step ar A i k s =
     (case s of (maxA, imax) \<Rightarrow>
        do { a \<leftarrow> rd2 A k i;
             let absA = fabs ar a;
             Some (if fgt ar absA maxA then (absA, k) else (maxA, imax)) })"

definition find_pivot :: "'a arith \<Rightarrow> 'a matrix \<Rightarrow> nat \<Rightarrow> nat \<Rightarrow> ('a \<times> nat) option" where
  "find_pivot ar A N i = for_loop [i..<N] (scan_step ar A i) (lit0 ar, i)"

text \<open>
  The exchange of lines 34-42:
  \<^verbatim>\<open>if (imax != i) { j = P[i]; P[i] = P[imax]; P[imax] = j;
                   A[i].swap(A[imax]); P[N]++; }\<close>
\<close>

definition swap_rows ::
  "'a matrix \<Rightarrow> nat list \<Rightarrow> nat \<Rightarrow> nat \<Rightarrow> nat \<Rightarrow> ('a matrix \<times> nat list) option" where
  "swap_rows A P N i imax =
     (if imax \<noteq> i then
        do { j \<leftarrow> rd P i;
             pm \<leftarrow> rd P imax;
             P1 \<leftarrow> wr P i pm;
             P2 \<leftarrow> wr P1 imax j;
             ri \<leftarrow> rd A i;
             rm \<leftarrow> rd A imax;
             A1 \<leftarrow> wr A i rm;
             A2 \<leftarrow> wr A1 imax ri;
             c \<leftarrow> rd P2 N;
             P3 \<leftarrow> wr P2 N ((c + 1) mod 2 ^ 32);
             Some (A2, P3) }
      else Some (A, P))"

text \<open>
  The elimination of lines 44-50:
  \<^verbatim>\<open>for (j = i + 1; j < N; j++) {
    A[j][i] /= A[i][i];
    for (k = i + 1; k < N; k++) A[j][k] -= A[j][i] * A[i][k];
  }\<close>
\<close>

definition elim_entry :: "'a arith \<Rightarrow> nat \<Rightarrow> nat \<Rightarrow> nat \<Rightarrow> 'a matrix \<Rightarrow> 'a matrix option" where
  "elim_entry ar i j k A =
     do { ajk \<leftarrow> rd2 A j k;
          aji \<leftarrow> rd2 A j i;
          aik \<leftarrow> rd2 A i k;
          wr2 A j k (fsub ar ajk (fmul ar aji aik)) }"

definition elim_row :: "'a arith \<Rightarrow> nat \<Rightarrow> nat \<Rightarrow> nat \<Rightarrow> 'a matrix \<Rightarrow> 'a matrix option" where
  "elim_row ar N i j A =
     do { aji \<leftarrow> rd2 A j i;
          aii \<leftarrow> rd2 A i i;
          A1 \<leftarrow> wr2 A j i (fdiv ar aji aii);
          for_loop [i + 1..<N] (elim_entry ar i j) A1 }"

definition eliminate :: "'a arith \<Rightarrow> nat \<Rightarrow> nat \<Rightarrow> 'a matrix \<Rightarrow> 'a matrix option" where
  "eliminate ar N i A = for_loop [i + 1..<N] (elim_row ar N i) A"

text \<open>
  One pass of the outer loop's body, lines 22-50, on pivot column \<open>i\<close>: either the
  \<^verbatim>\<open>return 0\<close> of line 32 is taken, or the rows are exchanged and the column is
  eliminated.
\<close>

datatype 'a stage = Degenerate | Eliminated "'a matrix" "nat list"

definition pivot_stage ::
  "'a arith \<Rightarrow> nat \<Rightarrow> 'a \<Rightarrow> nat \<Rightarrow> 'a matrix \<Rightarrow> nat list \<Rightarrow> 'a stage option" where
  "pivot_stage ar N Tol i A P =
     (case find_pivot ar A N i of
        None \<Rightarrow> None
      | Some (maxA, imax) \<Rightarrow>
          if flt ar maxA Tol then Some Degenerate
          else (case swap_rows A P N i imax of
                  None \<Rightarrow> None
                | Some (A1, P1) \<Rightarrow>
                    (case eliminate ar N i A1 of
                       None \<Rightarrow> None
                     | Some A2 \<Rightarrow> Some (Eliminated A2 P1))))"

text \<open>
  The outer loop of lines 20-52 over the pivot columns, with its early
  \<^verbatim>\<open>return 0\<close> and the final \<^verbatim>\<open>return 1\<close>. The result is the returned \<^verbatim>\<open>int\<close>
  with the matrix and the permutation vector as the call leaves them.
\<close>

fun decompose_loop ::
  "'a arith \<Rightarrow> nat \<Rightarrow> 'a \<Rightarrow> nat list \<Rightarrow> 'a matrix \<Rightarrow> nat list \<Rightarrow> (int \<times> 'a matrix \<times> nat list) option" where
  "decompose_loop ar N Tol [] A P = Some (1, A, P)"
| "decompose_loop ar N Tol (i # is) A P =
     (case pivot_stage ar N Tol i A P of
        None \<Rightarrow> None
      | Some Degenerate \<Rightarrow> Some (0, A, P)
      | Some (Eliminated A2 P1) \<Rightarrow> decompose_loop ar N Tol is A2 P1)"

text \<open>
  Lines 17-18, \<^verbatim>\<open>for (i = 0; i <= N; i++) P[i] = i;\<close>, then the outer loop. With
  \<open>N = 2 ^ 32 - 1\<close> the test \<^verbatim>\<open>i <= N\<close> never fails and the counter wraps: the call
  has no defined result.
\<close>

definition init_perm :: "nat \<Rightarrow> nat list \<Rightarrow> nat list option" where
  "init_perm N P = for_loop [0..<N + 1] (\<lambda>i P. wr P i i) P"

definition LUPDecompose ::
  "'a arith \<Rightarrow> 'a matrix \<Rightarrow> nat \<Rightarrow> 'a \<Rightarrow> nat list \<Rightarrow> (int \<times> 'a matrix \<times> nat list) option" where
  "LUPDecompose ar A N Tol P =
     (if 2 ^ 32 \<le> N + 1 then None
      else do { P0 \<leftarrow> init_perm N P; decompose_loop ar N Tol [0..<N] A P0 })"

section \<open>LUPSolve\<close>

text \<open>\<^verbatim>\<open>x[i] -= A[i][k] * x[k];\<close> (lines 72 and 78).\<close>

definition dot_step :: "'a arith \<Rightarrow> 'a matrix \<Rightarrow> nat \<Rightarrow> nat \<Rightarrow> 'a list \<Rightarrow> 'a list option" where
  "dot_step ar A i k x =
     do { xi \<leftarrow> rd x i;
          aik \<leftarrow> rd2 A i k;
          xk \<leftarrow> rd x k;
          wr x i (fsub ar xi (fmul ar aik xk)) }"

text \<open>The body of the forward substitution, lines 69-72.\<close>

definition fwd_row ::
  "'a arith \<Rightarrow> 'a matrix \<Rightarrow> 'a list \<Rightarrow> nat list \<Rightarrow> nat \<Rightarrow> 'a list \<Rightarrow> 'a list option" where
  "fwd_row ar A b P i x =
     do { p \<leftarrow> rd P i;
          bp \<leftarrow> rd b p;
          x1 \<leftarrow> wr x i bp;
          for_loop [0..<i] (dot_step ar A i) x1 }"

text \<open>The body of the backward substitution, lines 77-80.\<close>

definition back_row :: "'a arith \<Rightarrow> 'a matrix \<Rightarrow> nat \<Rightarrow> nat \<Rightarrow> 'a list \<Rightarrow> 'a list option" where
  "back_row ar A N i x =
     do { x1 \<leftarrow> for_loop [i + 1..<N] (dot_step ar A i) x;
          xi \<leftarrow> rd x1 i;
          aii \<leftarrow> rd2 A i i;
          wr x1 i (fdiv ar xi aii) }"

text \<open>
  \<^verbatim>\<open>for (int i = N - 1; i >= 0; i--)\<close>: \<^verbatim>\<open>N - 1\<close> is computed in \<^verbatim>\<open>unsigned int\<close>
  and converted to \<^verbatim>\<open>int\<close>, so the counter starts negative, and the loop does not
  run, when \<open>N = 0\<close> or \<open>N > 2 ^ 31\<close>.
\<close>

definition back_indices :: "nat \<Rightarrow> nat list" where
  "back_indices N = (if N \<le> 2 ^ 31 then rev [0..<N] else [])"

text \<open>
  Lines 60-90. The result is the returned error code with \<^verbatim>\<open>x\<close> and \<^verbatim>\<open>A\<close> as the
  call leaves them. \<^verbatim>\<open>x\<close>, \<^verbatim>\<open>b\<close> and the rows of \<^verbatim>\<open>A\<close> are distinct objects.
\<close>

definition LUPSolve ::
  "'a arith \<Rightarrow> 'a list \<Rightarrow> 'a matrix \<Rightarrow> 'a list \<Rightarrow> nat \<Rightarrow> (int \<times> 'a list \<times> 'a matrix) option" where
  "LUPSolve ar x A b N =
     (let tol = lit_tol ar;
          P = replicate ((N + 1) mod 2 ^ 32) (0::nat)
      in case LUPDecompose ar A N tol P of
           None \<Rightarrow> None
         | Some (ok, A', P') \<Rightarrow>
             if ok \<noteq> 0 then
               do { x1 \<leftarrow> for_loop [0..<N] (fwd_row ar A' b P') x;
                    x2 \<leftarrow> for_loop (back_indices N) (back_row ar A' N) x1;
                    Some (0, x2, A') }
             else Some (1, x, A'))"

section \<open>polyFit\<close>

text \<open>\<^verbatim>\<open>v.resize(n, c)\<close>: the first \<open>n\<close> elements are kept, missing ones are \<open>c\<close>.\<close>

definition resize :: "'a list \<Rightarrow> nat \<Rightarrow> 'a \<Rightarrow> 'a list" where
  "resize v n c = take n v @ replicate (n - length v) c"

text \<open>
  The body of the inner loop, lines 137-142, on the state
  \<open>(XY, xxSum, accumulatedPower)\<close>.
\<close>

definition power_step ::
  "'a arith \<Rightarrow> 'a list \<Rightarrow> 'a list \<Rightarrow> nat \<Rightarrow> nat \<Rightarrow> nat \<Rightarrow> 'a list \<times> 'a list \<times> 'a
     \<Rightarrow> ('a list \<times> 'a list \<times> 'a) option" where
  "power_step ar inX inY nCoef i j s =
     (case s of (XY, xxSum, acc) \<Rightarrow>
        do { XY1 \<leftarrow> (if j < nCoef then
                       do { yi \<leftarrow> rd inY i;
                            xyj \<leftarrow> rd XY j;
                            wr XY j (fadd ar xyj (fmul ar yi acc)) }
                     else Some XY);
             sj \<leftarrow> rd xxSum j;
             xxSum1 \<leftarrow> wr xxSum j (fadd ar sj acc);
             xi \<leftarrow> rd inX i;
             Some (XY1, xxSum1, fmul ar acc xi) })"

text \<open>The body of the loop over the samples, lines 134-143.\<close>

definition sample_step ::
  "'a arith \<Rightarrow> 'a list \<Rightarrow> 'a list \<Rightarrow> nat \<Rightarrow> nat \<Rightarrow> nat \<Rightarrow> 'a list \<times> 'a list
     \<Rightarrow> ('a list \<times> 'a list) option" where
  "sample_step ar inX inY nCoef nPower i s =
     (case s of (XY, xxSum) \<Rightarrow>
        do { r \<leftarrow> for_loop [0..<nPower] (power_step ar inX inY nCoef i) (XY, xxSum, lit1 ar);
             Some (fst r, fst (snd r)) })"

text \<open>
  Lines 149-150, \<^verbatim>\<open>XX[i][j] = xxSum[i + j]; XX[j][i] = XX[i][j];\<close>, the sum
  \<^verbatim>\<open>i + j\<close> in \<^verbatim>\<open>unsigned int\<close>.
\<close>

definition assemble_entry :: "'a list \<Rightarrow> nat \<Rightarrow> nat \<Rightarrow> 'a matrix \<Rightarrow> 'a matrix option" where
  "assemble_entry xxSum i j XX =
     do { s \<leftarrow> rd xxSum ((i + j) mod 2 ^ 32);
          XX1 \<leftarrow> wr2 XX i j s;
          v \<leftarrow> rd2 XX1 i j;
          wr2 XX1 j i v }"

text \<open>
  Lines 117-152: the normal matrix \<open>XX\<close> and the vector \<open>XY\<close> that polyFit hands to
  the solver. \<^verbatim>\<open>nX\<close> is \<^verbatim>\<open>inX.size()\<close> converted to \<^verbatim>\<open>unsigned int\<close>; \<^verbatim>\<open>nCoef\<close> and
  \<^verbatim>\<open>nPower\<close> are computed in \<^verbatim>\<open>unsigned int\<close>. Allocation is taken to succeed.
\<close>

definition normal_equations ::
  "'a arith \<Rightarrow> 'a list \<Rightarrow> 'a list \<Rightarrow> 32 word \<Rightarrow> ('a matrix \<times> 'a list) option" where
  "normal_equations ar inX inY inPolOrder =
     (let nX = unat (word_of_nat (length inX) :: 32 word);
          nCoef = unat (inPolOrder + 1);
          nPower = unat (inPolOrder + 1 + inPolOrder);
          XX = replicate nCoef (replicate nCoef (lit0 ar));
          XY = replicate nCoef (lit0 ar);
          xxSum = replicate nPower (lit0 ar)
      in do { r \<leftarrow> for_loop [0..<nX] (sample_step ar inX inY nCoef nPower) (XY, xxSum);
              XX1 \<leftarrow> for_loop [0..<nCoef]
                      (\<lambda>i. for_loop [0..<nCoef] (assemble_entry (snd r) i)) XX;
              Some (XX1, fst r) })"

text \<open>
  Lines 112-157. The result is the returned error code with \<^verbatim>\<open>outPolCoef\<close> as the
  call leaves it.
\<close>

definition polyFit ::
  "'a arith \<Rightarrow> 'a list \<Rightarrow> 'a list \<Rightarrow> 'a list \<Rightarrow> 32 word \<Rightarrow> (int \<times> 'a list) option" where
  "polyFit ar outPolCoef inX inY inPolOrder =
     (let nCoef = unat (inPolOrder + 1);
          out0 = resize outPolCoef nCoef (lit0 ar)
      in do { (XX, XY) \<leftarrow> normal_equations ar inX inY inPolOrder;
              (errCode, coef, XX') \<leftarrow> LUPSolve ar out0 XX XY nCoef;
              Some (errCode, coef) })"


section \<open>The free store\<close>

text \<open>
  The vectors that polyFit and LUPSolve construct or grow take their storage from the
  free store, and a request that the free store refuses raises \<^verbatim>\<open>std::bad_alloc\<close>
  (\<^verbatim>\<open>std::length_error\<close>, when the length is above the implementation's
  \<^verbatim>\<open>max_size\<close>). That is the only exception a call can raise: the source has no
  \<^verbatim>\<open>throw\<close> and no \<^verbatim>\<open>try\<close>, \<^verbatim>\<open>operator[]\<close> is unchecked, and \<^verbatim>\<open>swap\<close>,
  \<^verbatim>\<open>fabs\<close> and the arithmetic of \<^verbatim>\<open>double\<close> do not throw. What the free store
  grants is fixed by the implementation and the machine, not by the repository, so it
  is a parameter like the arithmetic: a state, a function \<open>grant\<close> from a state and a
  request to the state after it, \<open>None\<close> when the request is refused, and a function
  \<open>reclaim\<close> for storage that is given back. A request names what is stored and how
  many; a vector of no elements takes no storage.
\<close>

datatype request = Doubles nat | Indices nat | Rows nat

primrec extent :: "request \<Rightarrow> nat" where
  "extent (Doubles n) = n"
| "extent (Indices n) = n"
| "extent (Rows n) = n"

record 'h store =
  grant :: "'h \<Rightarrow> request \<Rightarrow> 'h option"
  reclaim :: "'h \<Rightarrow> request \<Rightarrow> 'h"

definition acquire :: "'h store \<Rightarrow> 'h \<Rightarrow> request \<Rightarrow> 'h option" where
  "acquire st h r = (if extent r = 0 then Some h else grant st h r)"

definition dispose :: "'h store \<Rightarrow> 'h \<Rightarrow> request \<Rightarrow> 'h" where
  "dispose st h r = (if extent r = 0 then h else reclaim st h r)"

text \<open>
  A free store of \<open>h\<close> bytes that gives out storage without overhead, with the element
  sizes of the common 64-bit implementations: 8 bytes a \<^verbatim>\<open>double\<close>, 4 an
  \<^verbatim>\<open>unsigned int\<close>, 24 a \<^verbatim>\<open>vector<double>\<close>. A real free store of \<open>h\<close> bytes
  grants no more than this one does; it is the instance on which refused requests are
  exhibited.
\<close>

primrec bytes :: "request \<Rightarrow> nat" where
  "bytes (Doubles n) = 8 * n"
| "bytes (Indices n) = 4 * n"
| "bytes (Rows n) = 24 * n"

definition byte_store :: "nat store" where
  "byte_store =
     \<lparr>grant = (\<lambda>h r. if bytes r \<le> h then Some (h - bytes r) else None),
      reclaim = (\<lambda>h r. h + bytes r)\<rparr>"

text \<open>
  A call either raises at a refused request or returns; \<open>None\<close> stays the outcome
  "no defined result".
\<close>

datatype 'r outcome = Raised | Returned 'r

text \<open>
  The requests of polyFit, lines 121-128, in the order the source makes them; \<open>None\<close>
  when one is refused.
  Line 121, \<^verbatim>\<open>outPolCoef.resize(nCoef,0.0)\<close>: a vector that grows asks for its new
  length and gives the old storage back (the request names the new length; an
  implementation that asks for more, or that has the capacity already, is a matter of
  what the store does with it).
  Line 125, \<^verbatim>\<open>vector<vector<double> > XX(nCoef, vector<double>(nCoef, 0))\<close>: the row
  that is the second argument, the \<^verbatim>\<open>nCoef\<close> rows of \<^verbatim>\<open>XX\<close>, and a copy of the
  row for each of them, one request each; the argument is given back at the end of the
  statement.
  Line 126, \<^verbatim>\<open>vector<double > XY(nCoef, 0)\<close>, and line 128,
  \<^verbatim>\<open>vector<double > xxSum(nPower, 0)\<close>.
\<close>

definition acquire_rows :: "'h store \<Rightarrow> nat \<Rightarrow> 'h \<Rightarrow> 'h option" where
  "acquire_rows st nCoef h = for_loop [0..<nCoef] (\<lambda>k h. acquire st h (Doubles nCoef)) h"

definition polyFit_storage :: "'h store \<Rightarrow> 'h \<Rightarrow> nat \<Rightarrow> nat \<Rightarrow> nat \<Rightarrow> 'h option" where
  "polyFit_storage st h len nCoef nPower =
     do { h1 \<leftarrow> (if len < nCoef then
                    do { h' \<leftarrow> acquire st h (Doubles nCoef);
                         Some (dispose st h' (Doubles len)) }
                  else Some h);
          h2 \<leftarrow> acquire st h1 (Doubles nCoef);
          h3 \<leftarrow> acquire st h2 (Rows nCoef);
          h4 \<leftarrow> acquire_rows st nCoef h3;
          h5 \<leftarrow> acquire st (dispose st h4 (Doubles nCoef)) (Doubles nCoef);
          acquire st h5 (Doubles nPower) }"

text \<open>
  LUPSolve with its request, line 63, \<^verbatim>\<open>vector<unsigned int> P(N + 1,0)\<close>, which
  comes before anything is computed. \<^verbatim>\<open>P\<close> is given back when the call returns.
\<close>

definition LUPSolve_call ::
  "'h store \<Rightarrow> 'h \<Rightarrow> 'a arith \<Rightarrow> 'a list \<Rightarrow> 'a matrix \<Rightarrow> 'a list \<Rightarrow> nat
     \<Rightarrow> (int \<times> 'a list \<times> 'a matrix) outcome option" where
  "LUPSolve_call st h ar x A b N =
     (case acquire st h (Indices ((N + 1) mod 2 ^ 32)) of
        None \<Rightarrow> Some Raised
      | Some h' \<Rightarrow> map_option Returned (LUPSolve ar x A b N))"

text \<open>
  polyFit with its requests: the storage of lines 121-128, the loops of lines 132-152,
  then the call of LUPSolve of line 154, in that order. The locals are given back when
  the call returns, after the last request.
\<close>

definition polyFit_call ::
  "'h store \<Rightarrow> 'h \<Rightarrow> 'a arith \<Rightarrow> 'a list \<Rightarrow> 'a list \<Rightarrow> 'a list \<Rightarrow> 32 word
     \<Rightarrow> (int \<times> 'a list) outcome option" where
  "polyFit_call st h ar outPolCoef inX inY inPolOrder =
     (let nCoef = unat (inPolOrder + 1);
          nPower = unat (inPolOrder + 1 + inPolOrder)
      in case polyFit_storage st h (length outPolCoef) nCoef nPower of
           None \<Rightarrow> Some Raised
         | Some h' \<Rightarrow>
             (case normal_equations ar inX inY inPolOrder of
                None \<Rightarrow> None
              | Some (XX, XY) \<Rightarrow>
                  (case LUPSolve_call st h' ar (resize outPolCoef nCoef (lit0 ar)) XX XY nCoef of
                     None \<Rightarrow> None
                   | Some Raised \<Rightarrow> Some Raised
                   | Some (Returned (errCode, coef, XX')) \<Rightarrow> Some (Returned (errCode, coef)))))"
section \<open>Notions the properties are stated with\<close>

text \<open>An \<open>N\<close> by \<open>N\<close> matrix: \<open>N\<close> rows of \<open>N\<close> entries each.\<close>

definition square :: "'a matrix \<Rightarrow> nat \<Rightarrow> bool" where
  "square A N = (length A = N \<and> (\<forall>r \<in> set A. length r = N))"

text \<open>
  The run of the outer loop, observed from outside: \<open>state_at \<dots> i\<close> is the matrix
  and the permutation vector at the start of pass \<open>i\<close>, if the passes before it were
  all completed; \<open>pivot_at \<dots> i\<close> is what the pivot search of pass \<open>i\<close> finds there.
  Pass \<open>i\<close> is degenerate when its maximum is below the tolerance, and it is an
  exchange when it is not degenerate and the pivot row is not row \<open>i\<close>:
  \<open>exchange_count \<dots> n\<close> counts the exchanges among the first \<open>n\<close> passes.
\<close>

fun state_at ::
  "'a arith \<Rightarrow> nat \<Rightarrow> 'a \<Rightarrow> 'a matrix \<Rightarrow> nat list \<Rightarrow> nat \<Rightarrow> ('a matrix \<times> nat list) option" where
  "state_at ar N Tol A P 0 = Some (A, P)"
| "state_at ar N Tol A P (Suc i) =
     (case state_at ar N Tol A P i of
        None \<Rightarrow> None
      | Some (A', P') \<Rightarrow>
          (case pivot_stage ar N Tol i A' P' of
             Some (Eliminated A2 P2) \<Rightarrow> Some (A2, P2)
           | _ \<Rightarrow> None))"

definition pivot_at ::
  "'a arith \<Rightarrow> nat \<Rightarrow> 'a \<Rightarrow> 'a matrix \<Rightarrow> nat list \<Rightarrow> nat \<Rightarrow> ('a \<times> nat) option" where
  "pivot_at ar N Tol A P i =
     (case state_at ar N Tol A P i of
        None \<Rightarrow> None
      | Some (A', P') \<Rightarrow> find_pivot ar A' N i)"

definition degenerate_at :: "'a arith \<Rightarrow> nat \<Rightarrow> 'a \<Rightarrow> 'a matrix \<Rightarrow> nat list \<Rightarrow> nat \<Rightarrow> bool" where
  "degenerate_at ar N Tol A P i =
     (case pivot_at ar N Tol A P i of
        None \<Rightarrow> False
      | Some (maxA, imax) \<Rightarrow> flt ar maxA Tol)"

definition exchange_at :: "'a arith \<Rightarrow> nat \<Rightarrow> 'a \<Rightarrow> 'a matrix \<Rightarrow> nat list \<Rightarrow> nat \<Rightarrow> bool" where
  "exchange_at ar N Tol A P i =
     (case pivot_at ar N Tol A P i of
        None \<Rightarrow> False
      | Some (maxA, imax) \<Rightarrow> \<not> flt ar maxA Tol \<and> imax \<noteq> i)"

definition exchange_count :: "'a arith \<Rightarrow> nat \<Rightarrow> 'a \<Rightarrow> 'a matrix \<Rightarrow> nat list \<Rightarrow> nat \<Rightarrow> nat" where
  "exchange_count ar N Tol A P n = length (filter (exchange_at ar N Tol A P) [0..<n])"

text \<open>
  The passes of the outer loop as functions of the matrix: the value the elimination
  of column \<open>i\<close> leaves at row \<open>j\<close>, column \<open>c\<close>; the state of the pivot search after
  \<open>n\<close> rows; the matrix and the permutation vector after the exchange.
\<close>

definition elim_val :: "'a arith \<Rightarrow> 'a matrix \<Rightarrow> nat \<Rightarrow> nat \<Rightarrow> nat \<Rightarrow> 'a" where
  "elim_val ar A i j c =
     (let m = fdiv ar (A ! j ! i) (A ! i ! i)
      in if c < i then A ! j ! c
         else if c = i then m
         else fsub ar (A ! j ! c) (fmul ar m (A ! i ! c)))"

primrec running_max :: "'a arith \<Rightarrow> 'a matrix \<Rightarrow> nat \<Rightarrow> nat \<Rightarrow> 'a \<times> nat" where
  "running_max ar A i 0 = (lit0 ar, i)"
| "running_max ar A i (Suc n) =
     (let absA = fabs ar (A ! (i + n) ! i)
      in if fgt ar absA (fst (running_max ar A i n)) then (absA, i + n)
         else running_max ar A i n)"

definition swap_mat :: "'a matrix \<Rightarrow> nat \<Rightarrow> nat \<Rightarrow> 'a matrix" where
  "swap_mat A i imax = (if imax = i then A else A[i := A ! imax, imax := A ! i])"

definition swap_perm :: "nat list \<Rightarrow> nat \<Rightarrow> nat \<Rightarrow> nat \<Rightarrow> nat list" where
  "swap_perm P N i imax =
     (if imax = i then P else P[i := P ! imax, imax := P ! i, N := (P ! N + 1) mod 2 ^ 32])"

text \<open>
  The absolute values the pivot search of column \<open>i\<close> compares, and what it takes for
  \<^verbatim>\<open>>\<close> to order a set of values: irreflexive, transitive, and incomparability
  transitive. On doubles \<^verbatim>\<open>>\<close> is such an order on every set without NaN.
\<close>

definition column_abs :: "'a arith \<Rightarrow> 'a matrix \<Rightarrow> nat \<Rightarrow> nat \<Rightarrow> 'a set" where
  "column_abs ar A N i = (\<lambda>k. fabs ar (A ! k ! i)) ` {i..<N}"

definition strict_weak_order_on :: "'a set \<Rightarrow> ('a \<Rightarrow> 'a \<Rightarrow> bool) \<Rightarrow> bool" where
  "strict_weak_order_on S g =
     ((\<forall>a\<in>S. \<not> g a a) \<and>
      (\<forall>a\<in>S. \<forall>b\<in>S. \<forall>c\<in>S. g a b \<longrightarrow> g b c \<longrightarrow> g a c) \<and>
      (\<forall>a\<in>S. \<forall>b\<in>S. \<forall>c\<in>S. \<not> g a b \<longrightarrow> \<not> g b c \<longrightarrow> \<not> g a c))"

text \<open>
  The normal equations as the specification words them: the running power of a sample
  (1, then multiplied by \<open>x\<close> once per step), the sums \<open>xxSum[k]\<close> of the powers and
  \<open>XY[j]\<close> of \<open>y\<close> times the powers, each accumulated from 0 in the order of the samples,
  and the matrix \<open>XX[i][j] = xxSum[i + j]\<close>.
\<close>

primrec fpow :: "'a arith \<Rightarrow> 'a \<Rightarrow> nat \<Rightarrow> 'a" where
  "fpow ar x 0 = lit1 ar"
| "fpow ar x (Suc n) = fmul ar (fpow ar x n) x"

definition power_sum :: "'a arith \<Rightarrow> 'a list \<Rightarrow> nat \<Rightarrow> 'a" where
  "power_sum ar xs k = foldl (\<lambda>acc x. fadd ar acc (fpow ar x k)) (lit0 ar) xs"

definition moment_sum :: "'a arith \<Rightarrow> 'a list \<Rightarrow> 'a list \<Rightarrow> nat \<Rightarrow> 'a" where
  "moment_sum ar xs ys j =
     foldl (\<lambda>acc xy. fadd ar acc (fmul ar (snd xy) (fpow ar (fst xy) j))) (lit0 ar) (zip xs ys)"

definition normal_matrix :: "'a arith \<Rightarrow> 'a list \<Rightarrow> nat \<Rightarrow> 'a matrix" where
  "normal_matrix ar xs d = map (\<lambda>i. map (\<lambda>j. power_sum ar xs (i + j)) [0..<d + 1]) [0..<d + 1]"

definition normal_vector :: "'a arith \<Rightarrow> 'a list \<Rightarrow> 'a list \<Rightarrow> nat \<Rightarrow> 'a list" where
  "normal_vector ar xs ys d = map (moment_sum ar xs ys) [0..<d + 1]"

text \<open>
  An arithmetic is exact on a set \<open>S\<close> of real numbers, read as doubles by \<open>dbl\<close>, when
  every operation on members of \<open>S\<close> whose exact result is in \<open>S\<close> returns that result,
  comparisons between members of \<open>S\<close> are the exact ones, and a member of \<open>S\<close> is below
  the literal \<^verbatim>\<open>1e-12\<close> exactly when it is below \<open>1 / 10 ^ 12\<close>. IEEE 754 arithmetic is
  exact on every set of representable numbers none of which lies between \<open>1 / 10 ^ 12\<close>
  and the double nearest to it.
\<close>

definition exact_on :: "'a arith \<Rightarrow> (real \<Rightarrow> 'a) \<Rightarrow> real set \<Rightarrow> bool" where
  "exact_on ar dbl S =
     (lit0 ar = dbl 0 \<and> lit1 ar = dbl 1 \<and>
      (\<forall>a\<in>S. \<forall>b\<in>S.
         (a + b \<in> S \<longrightarrow> fadd ar (dbl a) (dbl b) = dbl (a + b)) \<and>
         (a - b \<in> S \<longrightarrow> fsub ar (dbl a) (dbl b) = dbl (a - b)) \<and>
         (a * b \<in> S \<longrightarrow> fmul ar (dbl a) (dbl b) = dbl (a * b)) \<and>
         (b \<noteq> 0 \<longrightarrow> a / b \<in> S \<longrightarrow> fdiv ar (dbl a) (dbl b) = dbl (a / b)) \<and>
         (fgt ar (dbl a) (dbl b) \<longleftrightarrow> a > b)) \<and>
      (\<forall>a\<in>S. (\<bar>a\<bar> \<in> S \<longrightarrow> fabs ar (dbl a) = dbl \<bar>a\<bar>) \<and>
              (flt ar (dbl a) (lit_tol ar) \<longleftrightarrow> a < 1 / 10 ^ 12)))"

text \<open>
  What the decomposition needs of the arithmetic to detect a row of zeros or a repeated
  row, for a notion \<open>Z\<close> of zero: \<^verbatim>\<open>>\<close> is transitive; the absolute value of a zero
  is not above \<^verbatim>\<open>0.0\<close>; the elimination step \<^verbatim>\<open>a - (z / p) * b\<close> of a zero \<open>a\<close> with a
  zero multiplier numerator \<open>z\<close> is a zero; and eliminating a row with itself,
  \<^verbatim>\<open>b - (a / a) * b\<close> for a pivot \<open>a\<close> of absolute value above \<^verbatim>\<open>0.0\<close>, leaves a
  zero. Exact arithmetic has these laws for the number 0, IEEE 754 arithmetic for the
  values \<open>+0\<close>, \<open>-0\<close> and NaN. From pass \<open>i\<close> on, a matrix is doomed when among its
  rows \<open>i..N-1\<close> one is zero in the columns \<open>i..N-1\<close> or two agree there.
\<close>

definition degeneracy_laws :: "'a arith \<Rightarrow> ('a \<Rightarrow> bool) \<Rightarrow> bool" where
  "degeneracy_laws ar Z =
     ((\<forall>a b c. fgt ar a b \<longrightarrow> fgt ar b c \<longrightarrow> fgt ar a c) \<and>
      (\<forall>z. Z z \<longrightarrow> \<not> fgt ar (fabs ar z) (lit0 ar)) \<and>
      (\<forall>z a p b. Z z \<longrightarrow> Z a \<longrightarrow> Z (fsub ar a (fmul ar (fdiv ar z p) b))) \<and>
      (\<forall>a b. fgt ar (fabs ar a) (lit0 ar) \<longrightarrow> Z (fsub ar b (fmul ar (fdiv ar a a) b))))"

definition zero_row :: "('a \<Rightarrow> bool) \<Rightarrow> 'a matrix \<Rightarrow> nat \<Rightarrow> nat \<Rightarrow> nat \<Rightarrow> bool" where
  "zero_row Z B N i r = (i \<le> r \<and> r < N \<and> (\<forall>k. i \<le> k \<and> k < N \<longrightarrow> Z (B ! r ! k)))"

definition twin_rows :: "'a matrix \<Rightarrow> nat \<Rightarrow> nat \<Rightarrow> nat \<Rightarrow> nat \<Rightarrow> bool" where
  "twin_rows B N i r1 r2 =
     (i \<le> r1 \<and> r1 < N \<and> i \<le> r2 \<and> r2 < N \<and> r1 \<noteq> r2 \<and>
      (\<forall>k. i \<le> k \<and> k < N \<longrightarrow> B ! r1 ! k = B ! r2 ! k))"

definition doomed :: "('a \<Rightarrow> bool) \<Rightarrow> 'a matrix \<Rightarrow> nat \<Rightarrow> nat \<Rightarrow> bool" where
  "doomed Z B N i = ((\<exists>r. zero_row Z B N i r) \<or> (\<exists>r1 r2. twin_rows B N i r1 r2))"


text \<open>
  The pivot row as the specification words it: the lowest row index \<open>k\<close> of \<open>i..N-1\<close>
  whose entry in column \<open>i\<close> attains the maximum, that is, whose absolute value no
  entry of the range exceeds.
\<close>

definition first_max_row :: "'a arith \<Rightarrow> 'a matrix \<Rightarrow> nat \<Rightarrow> nat \<Rightarrow> nat option" where
  "first_max_row ar A N i =
     find (\<lambda>k. \<forall>k' \<in> set [i..<N]. \<not> fgt ar (fabs ar (A ! k' ! i)) (fabs ar (A ! k ! i))) [i..<N]"

text \<open>
  The maximum of a pivot column. The comparisons of an arithmetic order a set \<open>S\<close> of
  values as \<open>rv\<close> does, a function into a linear order, when \<^verbatim>\<open>>\<close> between members
  of \<open>S\<close> and \<^verbatim>\<open><\<close> between a member of \<open>S\<close> and the tolerance are the order of
  their \<open>rv\<close>, and no member of \<open>S\<close> is below \<^verbatim>\<open>0.0\<close>. On doubles that are not NaN
  the comparisons are those of the extended real numbers the doubles stand for. The
  maximum absolute value of column \<open>i\<close> over the rows \<open>i..N-1\<close> is then the greatest
  element, in that order, of the absolute values; pass \<open>i\<close> of a run meets a maximum
  below the tolerance when the run reaches the pass and the maximum of the matrix it
  finds there is below the tolerance.
\<close>

definition ordered_by :: "'a arith \<Rightarrow> ('a \<Rightarrow> 'b::linorder) \<Rightarrow> 'a \<Rightarrow> 'a set \<Rightarrow> bool" where
  "ordered_by ar rv Tol S =
     ((\<forall>a\<in>S. \<forall>b\<in>S. fgt ar a b \<longleftrightarrow> rv b < rv a) \<and>
      (\<forall>a\<in>S. flt ar a Tol \<longleftrightarrow> rv a < rv Tol) \<and>
      (\<forall>a\<in>S. rv (lit0 ar) \<le> rv a))"

definition column_max :: "'a arith \<Rightarrow> ('a \<Rightarrow> 'b::linorder) \<Rightarrow> 'a matrix \<Rightarrow> nat \<Rightarrow> nat \<Rightarrow> 'b" where
  "column_max ar rv A N i = Max (rv ` column_abs ar A N i)"

definition max_below_at ::
  "'a arith \<Rightarrow> ('a \<Rightarrow> 'b::linorder) \<Rightarrow> nat \<Rightarrow> 'a \<Rightarrow> 'a matrix \<Rightarrow> nat list \<Rightarrow> nat \<Rightarrow> bool" where
  "max_below_at ar rv N Tol A P i =
     (case state_at ar N Tol A P i of
        None \<Rightarrow> False
      | Some (Ai, Pi) \<Rightarrow> column_max ar rv Ai N i < rv Tol)"

text \<open>
  The comparisons order what the pivot searches of a run meet: at every pass the run
  reaches, the absolute values of the pivot column in the remaining rows, and \<^verbatim>\<open>0.0\<close>.
\<close>

definition ordered_passes ::
  "'a arith \<Rightarrow> ('a \<Rightarrow> 'b::linorder) \<Rightarrow> nat \<Rightarrow> 'a \<Rightarrow> 'a matrix \<Rightarrow> nat list \<Rightarrow> bool" where
  "ordered_passes ar rv N Tol A P =
     (\<forall>i<N. \<forall>Ai Pi. state_at ar N Tol A P i = Some (Ai, Pi) \<longrightarrow>
        ordered_by ar rv Tol (insert (lit0 ar) (column_abs ar Ai N i)))"

text \<open>
  The free store grants the requests of a call of polyFit: those of lines 121-128 and
  that of the vector \<^verbatim>\<open>P\<close> of its LUPSolve call.
\<close>

definition polyFit_granted :: "'h store \<Rightarrow> 'h \<Rightarrow> nat \<Rightarrow> 32 word \<Rightarrow> bool" where
  "polyFit_granted st h len inPolOrder =
     (let nCoef = unat (inPolOrder + 1);
          nPower = unat (inPolOrder + 1 + inPolOrder)
      in case polyFit_storage st h len nCoef nPower of
           None \<Rightarrow> False
         | Some h' \<Rightarrow> acquire st h' (Indices ((nCoef + 1) mod 2 ^ 32)) \<noteq> None)"
section \<open>Running the model on concrete input\<close>

text \<open>
  Rewrite rules that unroll the loops one iteration at a time, so that the simplifier
  runs the model on a given input.
\<close>

lemma for_loop_upt_step:
  "a < b \<Longrightarrow> for_loop [a..<b] body s =
     (case body a s of None \<Rightarrow> None | Some s' \<Rightarrow> for_loop [Suc a..<b] body s')"
  by (simp add: upt_conv_Cons)

lemma for_loop_upt_done: "\<not> a < b \<Longrightarrow> for_loop [a..<b] body s = Some s"
  by simp

lemma decompose_loop_upt_step:
  "a < b \<Longrightarrow> decompose_loop ar N Tol [a..<b] A P = decompose_loop ar N Tol (a # [Suc a..<b]) A P"
  by (simp add: upt_conv_Cons)

lemma decompose_loop_upt_done:
  "\<not> a < b \<Longrightarrow> decompose_loop ar N Tol [a..<b] A P = Some (1, A, P)"
  by simp

lemma rev_upt_step: "a < b \<Longrightarrow> rev [a..<b] = (b - 1) # rev [a..<b - 1]"
  by (cases b) simp_all

lemma replicate_numeral_step: "replicate (numeral k) x = x # replicate (pred_numeral k) x"
  by (simp add: numeral_eq_Suc)

lemmas run_loops =
  polyFit_def normal_equations_def sample_step_def power_step_def assemble_entry_def resize_def
  LUPSolve_def LUPDecompose_def init_perm_def pivot_stage_def find_pivot_def scan_step_def
  swap_rows_def eliminate_def elim_row_def elim_entry_def rd_def wr_def rd2_def wr2_def
  fwd_row_def back_row_def dot_step_def back_indices_def
  for_loop_upt_step for_loop_upt_done decompose_loop_upt_step decompose_loop_upt_done
  rev_upt_step replicate_numeral_step

lemmas run_model = run_loops real_arith_def

section \<open>Loops, accesses and the passes of the decomposition\<close>

lemma for_loop_append:
  "for_loop (xs @ ys) body s =
     (case for_loop xs body s of None \<Rightarrow> None | Some s' \<Rightarrow> for_loop ys body s')"
  by (induction xs arbitrary: s) (auto split: option.splits)

lemma for_loop_upt_rule:
  assumes "a \<le> b" and "Inv a s"
    and step: "\<And>k t. a \<le> k \<Longrightarrow> k < b \<Longrightarrow> Inv k t \<Longrightarrow> \<exists>t'. body k t = Some t' \<and> Inv (Suc k) t'"
  shows "\<exists>s'. for_loop [a..<b] body s = Some s' \<and> Inv b s'"
  using assms(1) step
proof (induction b)
  case 0
  with assms(2) show ?case by simp
next
  case (Suc b)
  show ?case
  proof (cases "a = Suc b")
    case True
    with assms(2) show ?thesis by simp
  next
    case False
    with Suc.prems have ab: "a \<le> b" by simp
    have "\<exists>s'. for_loop [a..<b] body s = Some s' \<and> Inv b s'"
      using Suc.IH [OF ab] Suc.prems(2) by simp
    then obtain s' where s': "for_loop [a..<b] body s = Some s'" "Inv b s'" by blast
    from Suc.prems(2) [OF ab _ s'(2)] obtain t where "body b s' = Some t" "Inv (Suc b) t"
      by auto
    with s' ab show ?thesis by (simp add: for_loop_append)
  qed
qed

lemma for_loop_rev_rule:
  assumes "Inv N s"
    and step: "\<And>k t. k < N \<Longrightarrow> Inv (Suc k) t \<Longrightarrow> \<exists>t'. body k t = Some t' \<and> Inv k t'"
  shows "\<exists>s'. for_loop (rev [0..<N]) body s = Some s' \<and> Inv 0 s'"
  using assms
proof (induction N arbitrary: s)
  case 0
  then show ?case by simp
next
  case (Suc N)
  from Suc.prems(2) [of N s] Suc.prems(1) obtain t where t: "body N s = Some t" "Inv N t"
    by auto
  have "\<exists>s'. for_loop (rev [0..<N]) body t = Some s' \<and> Inv 0 s'"
    using Suc.IH [OF t(2)] Suc.prems(2) by simp
  with t show ?case by simp
qed

lemma rd_in_range: "i < length v \<Longrightarrow> rd v i = Some (v ! i)"
  by (simp add: rd_def)

lemma wr_in_range: "i < length v \<Longrightarrow> wr v i a = Some (v[i := a])"
  by (simp add: wr_def)

lemma square_length: "square A N \<Longrightarrow> length A = N"
  by (simp add: square_def)

lemma square_row: "square A N \<Longrightarrow> j < N \<Longrightarrow> length (A ! j) = N"
  by (simp add: square_def)

lemma square_update: "square A N \<Longrightarrow> length r = N \<Longrightarrow> square (A[j := r]) N"
  using set_update_subset_insert [of A j r] by (auto simp: square_def)

lemma rd2_square: "square A N \<Longrightarrow> j < N \<Longrightarrow> k < N \<Longrightarrow> rd2 A j k = Some (A ! j ! k)"
  by (simp add: rd2_def rd_def square_def)

lemma wr2_square:
  "square A N \<Longrightarrow> j < N \<Longrightarrow> k < N \<Longrightarrow> wr2 A j k a = Some (A[j := (A ! j)[k := a]])"
  by (simp add: wr2_def rd_def wr_def square_def)

lemma square_update_entry: "square A N \<Longrightarrow> j < N \<Longrightarrow> square (A[j := (A ! j)[k := a]]) N"
  by (simp add: square_update square_row)

lemma nth_update_entry:
  "square B N \<Longrightarrow> j < N \<Longrightarrow> k < N \<Longrightarrow> r < N \<Longrightarrow> c < N \<Longrightarrow>
     B[j := (B ! j)[k := v]] ! r ! c = (if r = j \<and> c = k then v else B ! r ! c)"
  by (simp add: square_def nth_list_update)

lemma elim_entry_square:
  "square B N \<Longrightarrow> i < N \<Longrightarrow> j < N \<Longrightarrow> k < N \<Longrightarrow>
     elim_entry ar i j k B
       = Some (B[j := (B ! j)[k := fsub ar (B ! j ! k) (fmul ar (B ! j ! i) (B ! i ! k))]])"
  by (simp add: elim_entry_def rd2_square wr2_square)

lemma elim_row_entries:
  assumes sq: "square A N" and ij: "i < j" and jN: "j < N"
  shows "\<exists>B. elim_row ar N i j A = Some B \<and> square B N \<and>
           (\<forall>r<N. \<forall>c<N. B ! r ! c = (if r = j then elim_val ar A i j c else A ! r ! c))"
proof -
  define m where "m = fdiv ar (A ! j ! i) (A ! i ! i)"
  define A1 where "A1 = A[j := (A ! j)[i := m]]"
  define Inv where "Inv k B \<longleftrightarrow> square B N \<and>
     (\<forall>r<N. \<forall>c<N. B ! r ! c =
        (if r = j \<and> i < c \<and> c < k then fsub ar (A1 ! j ! c) (fmul ar m (A1 ! i ! c))
         else A1 ! r ! c))" for k B
  from ij jN have iN: "i < N" by simp
  have sq1: "square A1 N"
    unfolding A1_def using sq jN by (rule square_update_entry)
  have A1_nth: "A1 ! r ! c = (if r = j \<and> c = i then m else A ! r ! c)" if "r < N" "c < N" for r c
    unfolding A1_def using sq jN iN that by (rule nth_update_entry)
  have "\<exists>B. for_loop [i + 1..<N] (elim_entry ar i j) A1 = Some B \<and> Inv N B"
  proof (rule for_loop_upt_rule)
    show "i + 1 \<le> N" using iN by simp
    show "Inv (i + 1) A1" using sq1 by (auto simp: Inv_def)
  next
    fix k t
    assume k: "i + 1 \<le> k" "k < N" and inv: "Inv k t"
    from inv have sqt: "square t N" by (simp add: Inv_def)
    from inv have t_nth: "\<And>r c. r < N \<Longrightarrow> c < N \<Longrightarrow> t ! r ! c =
        (if r = j \<and> i < c \<and> c < k then fsub ar (A1 ! j ! c) (fmul ar m (A1 ! i ! c))
         else A1 ! r ! c)"
      by (simp add: Inv_def)
    define v where "v = fsub ar (t ! j ! k) (fmul ar (t ! j ! i) (t ! i ! k))"
    define t' where "t' = t[j := (t ! j)[k := v]]"
    have step: "elim_entry ar i j k t = Some t'"
      unfolding t'_def v_def using sqt iN jN k(2) by (rule elim_entry_square)
    have sqt': "square t' N"
      unfolding t'_def using sqt jN by (rule square_update_entry)
    have t'_nth: "t' ! r ! c = (if r = j \<and> c = k then v else t ! r ! c)" if "r < N" "c < N" for r c
      unfolding t'_def using sqt jN k(2) that by (rule nth_update_entry)
    have v_eq: "v = fsub ar (A1 ! j ! k) (fmul ar m (A1 ! i ! k))"
      using ij iN jN k by (simp add: v_def t_nth A1_nth)
    have "Inv (Suc k) t'"
      unfolding Inv_def using sqt' k by (auto simp: t'_nth t_nth v_eq less_Suc_eq)
    with step show "\<exists>t'. elim_entry ar i j k t = Some t' \<and> Inv (Suc k) t'" by blast
  qed
  then obtain B where B: "for_loop [i + 1..<N] (elim_entry ar i j) A1 = Some B" "Inv N B"
    by blast
  have run: "elim_row ar N i j A = Some B"
    using sq iN jN B(1) by (simp add: elim_row_def rd2_square wr2_square A1_def m_def)
  have "B ! r ! c = (if r = j then elim_val ar A i j c else A ! r ! c)" if "r < N" "c < N" for r c
    using B(2) that ij iN jN by (auto simp: Inv_def A1_nth elim_val_def m_def Let_def)
  with run B(2) show ?thesis by (auto simp: Inv_def)
qed

lemma eliminate_entries:
  assumes sq: "square A N" and iN: "i < N"
  shows "\<exists>B. eliminate ar N i A = Some B \<and> square B N \<and>
           (\<forall>r<N. \<forall>c<N. B ! r ! c = (if i < r then elim_val ar A i r c else A ! r ! c))"
proof -
  define Inv where "Inv j B \<longleftrightarrow> square B N \<and>
     (\<forall>r<N. \<forall>c<N. B ! r ! c = (if i < r \<and> r < j then elim_val ar A i r c else A ! r ! c))" for j B
  have "\<exists>B. for_loop [i + 1..<N] (elim_row ar N i) A = Some B \<and> Inv N B"
  proof (rule for_loop_upt_rule)
    show "i + 1 \<le> N" using iN by simp
    show "Inv (i + 1) A" using sq by (auto simp: Inv_def)
  next
    fix j t
    assume j: "i + 1 \<le> j" "j < N" and inv: "Inv j t"
    from inv have sqt: "square t N" by (simp add: Inv_def)
    from inv have t_nth: "\<And>r c. r < N \<Longrightarrow> c < N \<Longrightarrow> t ! r ! c =
        (if i < r \<and> r < j then elim_val ar A i r c else A ! r ! c)"
      by (simp add: Inv_def)
    from j have ij: "i < j" by simp
    from elim_row_entries [OF sqt ij j(2), of ar] obtain t' where
      t': "elim_row ar N i j t = Some t'" "square t' N"
          "\<And>r c. r < N \<Longrightarrow> c < N \<Longrightarrow> t' ! r ! c = (if r = j then elim_val ar t i j c else t ! r ! c)"
      by blast
    have same: "elim_val ar t i j c = elim_val ar A i j c" if "c < N" for c
      using that ij j(2) iN by (simp add: elim_val_def t_nth Let_def)
    have "Inv (Suc j) t'"
      unfolding Inv_def using t'(2) ij by (auto simp: t'(3) t_nth same less_Suc_eq)
    with t'(1) show "\<exists>t'. elim_row ar N i j t = Some t' \<and> Inv (Suc j) t'" by blast
  qed
  then show ?thesis by (auto simp: eliminate_def Inv_def)
qed

lemma find_pivot_running_max:
  assumes sq: "square A N" and iN: "i \<le> N"
  shows "find_pivot ar A N i = Some (running_max ar A i (N - i))"
proof -
  have "\<exists>s. for_loop [i..<N] (scan_step ar A i) (lit0 ar, i) = Some s
            \<and> s = running_max ar A i (N - i)"
  proof (rule for_loop_upt_rule [where Inv = "\<lambda>k s. s = running_max ar A i (k - i)"])
    show "i \<le> N" by (rule iN)
    show "(lit0 ar, i) = running_max ar A i (i - i)" by simp
  next
    fix k t
    assume k: "i \<le> k" "k < N" and t: "t = running_max ar A i (k - i)"
    from k have "Suc k - i = Suc (k - i)" "i + (k - i) = k" "i < N" by simp_all
    then show "\<exists>t'. scan_step ar A i k t = Some t' \<and> t' = running_max ar A i (Suc k - i)"
      using sq k t by (simp add: scan_step_def rd2_square Let_def split_beta)
  qed
  then show ?thesis by (auto simp: find_pivot_def)
qed

lemma running_max_index:
  "i \<le> snd (running_max ar A i n) \<and> (snd (running_max ar A i n) = i \<or> snd (running_max ar A i n) < i + n)"
  by (induction n) (auto simp: Let_def)

lemma running_max_index_less: "i < N \<Longrightarrow> snd (running_max ar A i (N - i)) < N"
  using running_max_index [of i ar A "N - i"] by auto

lemma swap_rows_square:
  assumes "square A N" "i < N" "imax < N" "N < length P"
  shows "swap_rows A P N i imax = Some (swap_mat A i imax, swap_perm P N i imax)"
  using assms by (simp add: swap_rows_def swap_mat_def swap_perm_def rd_def wr_def square_def)

lemma square_swap_mat:
  assumes "square A N" "i < N" "imax < N"
  shows "square (swap_mat A i imax) N"
  using assms by (simp add: swap_mat_def square_update square_row)

lemma swap_mat_nth:
  assumes "square A N" "i < N" "imax < N" "r < N"
  shows "swap_mat A i imax ! r = (if r = imax then A ! i else if r = i then A ! imax else A ! r)"
  using assms by (auto simp: swap_mat_def square_def nth_list_update)

lemma length_swap_perm: "length (swap_perm P N i imax) = length P"
  by (simp add: swap_perm_def)

lemma swap_perm_counter:
  "i < N \<Longrightarrow> imax < N \<Longrightarrow> N < length P \<Longrightarrow>
     swap_perm P N i imax ! N = (if imax = i then P ! N else (P ! N + 1) mod 2 ^ 32)"
  by (simp add: swap_perm_def)

lemma swap_perm_nth:
  "i < N \<Longrightarrow> imax < N \<Longrightarrow> N < length P \<Longrightarrow> k < N \<Longrightarrow>
     swap_perm P N i imax ! k = (if k = imax then P ! i else if k = i then P ! imax else P ! k)"
  by (auto simp: swap_perm_def nth_list_update)

lemma pivot_stage_square:
  assumes sq: "square A N" and iN: "i < N" and P: "N < length P"
    and piv: "running_max ar A i (N - i) = (m, imax)"
  shows "find_pivot ar A N i = Some (m, imax)"
    and "i \<le> imax" and "imax < N"
    and "flt ar m Tol \<Longrightarrow> pivot_stage ar N Tol i A P = Some Degenerate"
    and "\<not> flt ar m Tol \<Longrightarrow>
           \<exists>A2. eliminate ar N i (swap_mat A i imax) = Some A2 \<and> square A2 N \<and>
                pivot_stage ar N Tol i A P = Some (Eliminated A2 (swap_perm P N i imax))"
proof -
  show fp: "find_pivot ar A N i = Some (m, imax)"
    using find_pivot_running_max [OF sq, of i ar] iN piv by simp
  show lo: "i \<le> imax" using running_max_index [of i ar A "N - i"] piv by simp
  show hi: "imax < N" using running_max_index_less [OF iN, of ar A] piv by simp
  show "pivot_stage ar N Tol i A P = Some Degenerate" if "flt ar m Tol"
    using that fp by (simp add: pivot_stage_def)
  show "\<exists>A2. eliminate ar N i (swap_mat A i imax) = Some A2 \<and> square A2 N \<and>
          pivot_stage ar N Tol i A P = Some (Eliminated A2 (swap_perm P N i imax))"
    if nd: "\<not> flt ar m Tol"
  proof -
    have sw: "swap_rows A P N i imax = Some (swap_mat A i imax, swap_perm P N i imax)"
      using sq iN hi P by (rule swap_rows_square)
    have "square (swap_mat A i imax) N" using sq iN hi by (rule square_swap_mat)
    from eliminate_entries [OF this iN, of ar] obtain A2 where
      "eliminate ar N i (swap_mat A i imax) = Some A2" "square A2 N" by blast
    with fp nd sw show ?thesis by (simp add: pivot_stage_def)
  qed
qed

lemma init_perm_identity:
  assumes "N < length P"
  shows "init_perm N P = Some ([0..<N + 1] @ drop (N + 1) P)"
proof -
  define Inv where "Inv k Q \<longleftrightarrow> length Q = length P \<and>
     (\<forall>r<length P. Q ! r = (if r < k then r else P ! r))" for k Q
  have "\<exists>Q. for_loop [0..<N + 1] (\<lambda>i P. wr P i i) P = Some Q \<and> Inv (N + 1) Q"
  proof (rule for_loop_upt_rule)
    show "0 \<le> N + 1" by simp
    show "Inv 0 P" by (simp add: Inv_def)
  next
    fix k t
    assume "k < N + 1" and "Inv k t"
    with assms show "\<exists>t'. wr t k k = Some t' \<and> Inv (Suc k) t'"
      by (auto simp: Inv_def wr_def nth_list_update)
  qed
  then obtain Q where Q: "init_perm N P = Some Q" "Inv (N + 1) Q"
    by (auto simp: init_perm_def)
  have "Q = [0..<N + 1] @ drop (N + 1) P"
  proof (rule nth_equalityI)
    show "length Q = length ([0..<N + 1] @ drop (N + 1) P)"
      using Q(2) assms by (simp add: Inv_def)
  next
    fix r
    assume "r < length Q"
    with Q(2) assms show "Q ! r = ([0..<N + 1] @ drop (N + 1) P) ! r"
      by (auto simp: Inv_def nth_append)
  qed
  with Q(1) show ?thesis by simp
qed

section \<open>The run of the outer loop\<close>

lemma state_at_Suc_Some:
  assumes "state_at ar N Tol A P (Suc i) = Some (B, Q)"
  obtains B0 Q0 where "state_at ar N Tol A P i = Some (B0, Q0)"
    and "pivot_stage ar N Tol i B0 Q0 = Some (Eliminated B Q)"
  using assms by (auto split: option.splits stage.splits)

lemma pivot_stage_Eliminated:
  assumes sq: "square A N" and iN: "i < N" and P: "N < length P"
    and st: "pivot_stage ar N Tol i A P = Some (Eliminated B Q)"
  obtains m imax where "running_max ar A i (N - i) = (m, imax)" and "\<not> flt ar m Tol"
    and "i \<le> imax" and "imax < N"
    and "eliminate ar N i (swap_mat A i imax) = Some B" and "square B N"
    and "Q = swap_perm P N i imax"
proof -
  obtain m imax where piv: "running_max ar A i (N - i) = (m, imax)"
    by (cases "running_max ar A i (N - i)")
  note facts = pivot_stage_square [OF sq iN P piv]
  have nd: "\<not> flt ar m Tol"
    using facts(4) [of Tol] st by auto
  from facts(5) [OF nd] st obtain A2 where
    "eliminate ar N i (swap_mat A i imax) = Some A2" "square A2 N"
    "B = A2" "Q = swap_perm P N i imax" by auto
  with piv nd facts(2,3) that show thesis by blast
qed

lemma state_at_invariant:
  assumes sq: "square A N" and P: "N < length P" and Pr: "\<forall>k<N. P ! k < N"
  shows "i \<le> N \<Longrightarrow> state_at ar N Tol A P i = Some (B, Q) \<Longrightarrow>
           square B N \<and> length Q = length P \<and> (\<forall>k<N. Q ! k < N)"
proof (induction i arbitrary: B Q)
  case 0
  with sq Pr show ?case by simp
next
  case (Suc i)
  from Suc.prems(2) obtain B0 Q0 where
    prev: "state_at ar N Tol A P i = Some (B0, Q0)"
    and st: "pivot_stage ar N Tol i B0 Q0 = Some (Eliminated B Q)"
    by (rule state_at_Suc_Some)
  from Suc.prems(1) have iN: "i < N" by simp
  from Suc.IH [OF _ prev] iN have
    inv: "square B0 N" "length Q0 = length P" "\<forall>k<N. Q0 ! k < N" by simp_all
  from inv(2) P have Q0: "N < length Q0" by simp
  from pivot_stage_Eliminated [OF inv(1) iN Q0 st] obtain m imax where
    im: "i \<le> imax" "imax < N" and B: "square B N" and Q: "Q = swap_perm Q0 N i imax"
    by metis
  have "\<forall>k<N. Q ! k < N"
    using inv(3) iN im(2) Q0 by (simp add: Q swap_perm_nth)
  with B Q inv(2) show ?case by (simp add: length_swap_perm)
qed

lemma decompose_loop_run:
  assumes sq: "square A N" and P: "N < length P" and Pr: "\<forall>k<N. P ! k < N"
  shows "a \<le> N \<Longrightarrow> state_at ar N Tol A P a = Some (B, Q) \<Longrightarrow>
           \<exists>code A' P'. decompose_loop ar N Tol [a..<N] B Q = Some (code, A', P') \<and>
             square A' N \<and> length P' = length P \<and> (\<forall>k<N. P' ! k < N) \<and>
             (if \<exists>i. a \<le> i \<and> i < N \<and> degenerate_at ar N Tol A P i then code = 0
              else code = 1 \<and> state_at ar N Tol A P N = Some (A', P'))"
proof (induction "N - a" arbitrary: a B Q)
  case 0
  then have aN: "a = N" by simp
  from state_at_invariant [OF sq P Pr "0.prems"] "0.prems"(2) show ?case
    by (simp add: aN)
next
  case (Suc n)
  then have aN: "a < N" by simp
  from state_at_invariant [OF sq P Pr Suc.prems] have
    inv: "square B N" "length Q = length P" "\<forall>k<N. Q ! k < N" by simp_all
  from inv(2) P have Q: "N < length Q" by simp
  obtain m imax where piv: "running_max ar B a (N - a) = (m, imax)"
    by (cases "running_max ar B a (N - a)")
  note facts = pivot_stage_square [OF inv(1) aN Q piv]
  have pa: "pivot_at ar N Tol A P a = Some (m, imax)"
    using Suc.prems(2) facts(1) by (simp add: pivot_at_def)
  show ?case
  proof (cases "flt ar m Tol")
    case True
    then have "degenerate_at ar N Tol A P a" by (simp add: degenerate_at_def pa)
    with aN have ex: "\<exists>i. a \<le> i \<and> i < N \<and> degenerate_at ar N Tol A P i" by auto
    have "decompose_loop ar N Tol [a..<N] B Q = Some (0, B, Q)"
      using aN facts(4) [OF True] by (simp add: upt_conv_Cons)
    with inv ex show ?thesis by simp
  next
    case False
    from facts(5) [OF False] obtain A2 where
      A2: "pivot_stage ar N Tol a B Q = Some (Eliminated A2 (swap_perm Q N a imax))" by blast
    have nxt: "state_at ar N Tol A P (Suc a) = Some (A2, swap_perm Q N a imax)"
      using Suc.prems(2) A2 by simp
    have "n = N - Suc a" using Suc.hyps(2) by simp
    from Suc.hyps(1) [OF this _ nxt] aN obtain code A' P' where
      res: "decompose_loop ar N Tol [Suc a..<N] A2 (swap_perm Q N a imax) = Some (code, A', P')"
        "square A' N" "length P' = length P" "\<forall>k<N. P' ! k < N"
        "if \<exists>i. Suc a \<le> i \<and> i < N \<and> degenerate_at ar N Tol A P i then code = 0
         else code = 1 \<and> state_at ar N Tol A P N = Some (A', P')"
      by auto
    have nd: "\<not> degenerate_at ar N Tol A P a"
      using False by (simp add: degenerate_at_def pa)
    have iff: "(\<exists>i. a \<le> i \<and> i < N \<and> degenerate_at ar N Tol A P i)
                \<longleftrightarrow> (\<exists>i. Suc a \<le> i \<and> i < N \<and> degenerate_at ar N Tol A P i)"
      using nd by (metis Suc_leI le_neq_implies_less Suc_leD)
    have "decompose_loop ar N Tol [a..<N] B Q = Some (code, A', P')"
      using aN A2 res(1) by (simp add: upt_conv_Cons)
    with res(2-5) iff show ?thesis by simp
  qed
qed

lemma LUPDecompose_run:
  assumes sq: "square A N" and N: "N + 1 < 2 ^ 32" and P: "N < length P"
  defines "P0 \<equiv> [0..<N + 1] @ drop (N + 1) P"
  shows "\<exists>code A' P'. LUPDecompose ar A N Tol P = Some (code, A', P') \<and>
           square A' N \<and> length P' = length P \<and> (\<forall>k<N. P' ! k < N) \<and>
           (if \<exists>i<N. degenerate_at ar N Tol A P0 i then code = 0
            else code = 1 \<and> state_at ar N Tol A P0 N = Some (A', P'))"
proof -
  have len: "length P0 = length P" using P by (simp add: P0_def)
  have P0: "N < length P0" using P len by simp
  have Pr: "\<forall>k<N. P0 ! k < N" by (simp add: P0_def nth_append)
  have st: "state_at ar N Tol A P0 0 = Some (A, P0)" by simp
  have run: "LUPDecompose ar A N Tol P = decompose_loop ar N Tol [0..<N] A P0"
    using N init_perm_identity [OF P] by (simp add: LUPDecompose_def P0_def)
  from decompose_loop_run [OF sq P0 Pr _ st] show ?thesis
    by (simp add: run len)
qed

section \<open>The substitutions of LUPSolve\<close>

lemma dot_step_defined:
  assumes "square A N" "i < N" "k < N" "N \<le> length x"
  shows "dot_step ar A i k x = Some (x[i := fsub ar (x ! i) (fmul ar (A ! i ! k) (x ! k))])"
  using assms by (simp add: dot_step_def rd_def wr_def rd2_square)

lemma dot_loop_defined:
  assumes sq: "square A N" and iN: "i < N" and ab: "a \<le> b" and bN: "b \<le> N"
    and x: "N \<le> length x"
  shows "\<exists>x'. for_loop [a..<b] (dot_step ar A i) x = Some x' \<and> length x' = length x"
proof (rule for_loop_upt_rule [where Inv = "\<lambda>k t. length t = length x"])
  show "a \<le> b" by (rule ab)
  show "length x = length x" by simp
next
  fix k and t :: "'a list"
  assume "k < b" and "length t = length x"
  with bN x have "k < N" "N \<le> length t" by simp_all
  from dot_step_defined [OF sq iN this] \<open>length t = length x\<close>
  show "\<exists>t'. dot_step ar A i k t = Some t' \<and> length t' = length x" by simp
qed

lemma fwd_row_defined:
  assumes sq: "square A N" and iN: "i < N" and b: "length b = N" and x: "N \<le> length x"
    and P: "N < length P" and Pr: "\<forall>k<N. P ! k < N"
  shows "\<exists>x'. fwd_row ar A b P i x = Some x' \<and> length x' = length x"
proof -
  have x1: "N \<le> length (x[i := b ! (P ! i)])" using x by simp
  from dot_loop_defined [OF sq iN _ _ x1, of 0 i ar] iN obtain x' where
    "for_loop [0..<i] (dot_step ar A i) (x[i := b ! (P ! i)]) = Some x'" "length x' = length x"
    by auto
  with iN b x P Pr show ?thesis by (simp add: fwd_row_def rd_def wr_def)
qed

lemma back_row_defined:
  assumes sq: "square A N" and iN: "i < N" and x: "N \<le> length x"
  shows "\<exists>x'. back_row ar A N i x = Some x' \<and> length x' = length x"
proof -
  from dot_loop_defined [OF sq iN _ _ x, of "i + 1" N ar] iN obtain x1 where
    "for_loop [i + 1..<N] (dot_step ar A i) x = Some x1" "length x1 = length x"
    by auto
  with sq iN x show ?thesis by (simp add: back_row_def rd_def wr_def rd2_square)
qed

lemma substitution_defined:
  assumes sq: "square A N" and b: "length b = N" and x: "N \<le> length x"
    and P: "N < length P" and Pr: "\<forall>k<N. P ! k < N"
  shows "\<exists>x1 x2. for_loop [0..<N] (fwd_row ar A b P) x = Some x1 \<and>
           for_loop (back_indices N) (back_row ar A N) x1 = Some x2 \<and> length x2 = length x"
proof -
  have "\<exists>x1. for_loop [0..<N] (fwd_row ar A b P) x = Some x1 \<and> length x1 = length x"
  proof (rule for_loop_upt_rule [where Inv = "\<lambda>k t. length t = length x"])
    fix k and t :: "'a list"
    assume "k < N" and "length t = length x"
    with x fwd_row_defined [OF sq _ b _ P Pr, of k t ar]
    show "\<exists>t'. fwd_row ar A b P k t = Some t' \<and> length t' = length x" by simp
  qed simp_all
  then obtain x1 where x1: "for_loop [0..<N] (fwd_row ar A b P) x = Some x1" "length x1 = length x"
    by blast
  have "\<exists>x2. for_loop (rev [0..<N]) (back_row ar A N) x1 = Some x2 \<and> length x2 = length x"
  proof (rule for_loop_rev_rule [where Inv = "\<lambda>k t. length t = length x"])
    show "length x1 = length x" by (rule x1(2))
  next
    fix k and t :: "'a list"
    assume "k < N" and "length t = length x"
    with x back_row_defined [OF sq, of k t ar]
    show "\<exists>t'. back_row ar A N k t = Some t' \<and> length t' = length x" by simp
  qed
  with x1 show ?thesis by (auto simp: back_indices_def)
qed

lemma LUPSolve_run:
  assumes sq: "square A N" and N: "N + 1 < 2 ^ 32" and b: "length b = N" and x: "N \<le> length x"
  shows "\<exists>x' A'. LUPSolve ar x A b N
           = Some (if \<exists>i<N. degenerate_at ar N (lit_tol ar) A [0..<N + 1] i then 1 else 0, x', A')
           \<and> length x' = length x \<and> square A' N
           \<and> ((\<exists>i<N. degenerate_at ar N (lit_tol ar) A [0..<N + 1] i) \<longrightarrow> x' = x)"
proof -
  define P where "P = replicate (N + 1) (0::nat)"
  have P: "N < length P" by (simp add: P_def)
  have P0: "[0..<N + 1] @ drop (N + 1) P = [0..<N + 1]" by (simp add: P_def)
  have md: "(N + 1) mod 2 ^ 32 = N + 1" using N by simp
  note run = LUPDecompose_run [OF sq N P, of ar "lit_tol ar", unfolded P0]
  from run obtain code A' P' where
    dec: "LUPDecompose ar A N (lit_tol ar) P = Some (code, A', P')"
      and inv: "square A' N" "length P' = length P" "\<forall>k<N. P' ! k < N"
      and code': "if \<exists>i<N. degenerate_at ar N (lit_tol ar) A [0..<N + 1] i then code = 0
                 else code = 1 \<and> state_at ar N (lit_tol ar) A [0..<N + 1] N = Some (A', P')"
    by blast
  from code' have
    code: "if \<exists>i<N. degenerate_at ar N (lit_tol ar) A [0..<N + 1] i then code = 0 else code = 1"
    by (simp split: if_splits)
  show ?thesis
  proof (cases "\<exists>i<N. degenerate_at ar N (lit_tol ar) A [0..<N + 1] i")
    case True
    with code dec inv(1) show ?thesis
      unfolding LUPSolve_def Let_def md P_def [symmetric] by simp
  next
    case False
    from inv(2) P have P': "N < length P'" by simp
    from substitution_defined [OF inv(1) b x P' inv(3), of ar] obtain x1 x2 where
      "for_loop [0..<N] (fwd_row ar A' b P') x = Some x1"
      "for_loop (back_indices N) (back_row ar A' N) x1 = Some x2" "length x2 = length x"
      by blast
    with False code dec inv(1) show ?thesis
      unfolding LUPSolve_def Let_def md P_def [symmetric] by auto
  qed
qed

section \<open>Counting the exchanges\<close>

lemma exchange_count_Suc:
  "exchange_count ar N Tol A P (Suc n)
     = exchange_count ar N Tol A P n + (if exchange_at ar N Tol A P n then 1 else 0)"
  by (simp add: exchange_count_def)

lemma exchange_count_le: "exchange_count ar N Tol A P n \<le> n"
proof -
  have "length (filter (exchange_at ar N Tol A P) [0..<n]) \<le> length [0..<n]"
    by (rule length_filter_le)
  then show ?thesis by (simp add: exchange_count_def)
qed

lemma state_at_counter:
  assumes sq: "square A N" and P: "N < length P" and Pr: "\<forall>k<N. P ! k < N"
    and PN: "P ! N < 2 ^ 32"
  shows "i \<le> N \<Longrightarrow> state_at ar N Tol A P i = Some (B, Q) \<Longrightarrow>
           Q ! N = (P ! N + exchange_count ar N Tol A P i) mod 2 ^ 32"
proof (induction i arbitrary: B Q)
  case 0
  with PN show ?case by (simp add: exchange_count_def)
next
  case (Suc i)
  from Suc.prems(2) obtain B0 Q0 where
    prev: "state_at ar N Tol A P i = Some (B0, Q0)"
    and st: "pivot_stage ar N Tol i B0 Q0 = Some (Eliminated B Q)"
    by (rule state_at_Suc_Some)
  from Suc.prems(1) have iN: "i < N" "i \<le> N" by simp_all
  from state_at_invariant [OF sq P Pr iN(2) prev] have
    inv: "square B0 N" "length Q0 = length P" by simp_all
  from inv(2) P have Q0: "N < length Q0" by simp
  from pivot_stage_Eliminated [OF inv(1) iN(1) Q0 st] obtain m imax where
    piv: "running_max ar B0 i (N - i) = (m, imax)" and nd: "\<not> flt ar m Tol"
    and im: "imax < N" and Q: "Q = swap_perm Q0 N i imax"
    by metis
  have "pivot_at ar N Tol A P i = Some (m, imax)"
    using prev find_pivot_running_max [OF inv(1) iN(2), of ar] piv by (simp add: pivot_at_def)
  with nd have ex: "exchange_at ar N Tol A P i \<longleftrightarrow> imax \<noteq> i"
    by (simp add: exchange_at_def)
  have "Q ! N = (if imax = i then Q0 ! N else (Q0 ! N + 1) mod 2 ^ 32)"
    unfolding Q using iN(1) im Q0 by (rule swap_perm_counter)
  also have "Q0 ! N = (P ! N + exchange_count ar N Tol A P i) mod 2 ^ 32"
    using iN(2) prev by (rule Suc.IH)
  finally show ?case
    by (simp add: exchange_count_Suc ex mod_simps)
qed

section \<open>What the pivot search finds\<close>

lemma running_max_order:
  fixes ar :: "'a arith" and A :: "'a matrix" and N i :: nat
  defines "S \<equiv> insert (lit0 ar) (column_abs ar A N i)"
  assumes swo: "strict_weak_order_on S (fgt ar)"
  shows "i + n \<le> N \<Longrightarrow>
     fst (running_max ar A i n) \<in> S \<and>
     (\<forall>k. i \<le> k \<and> k < i + n \<longrightarrow> \<not> fgt ar (fabs ar (A ! k ! i)) (fst (running_max ar A i n))) \<and>
     (running_max ar A i n = (lit0 ar, i) \<or>
      (i \<le> snd (running_max ar A i n) \<and> snd (running_max ar A i n) < i + n \<and>
       fst (running_max ar A i n) = fabs ar (A ! snd (running_max ar A i n) ! i) \<and>
       (\<forall>k. i \<le> k \<and> k < snd (running_max ar A i n) \<longrightarrow>
          fgt ar (fst (running_max ar A i n)) (fabs ar (A ! k ! i)))))"
proof (induction n)
  case 0
  show ?case by (auto simp: S_def)
next
  case (Suc n)
  define a where "a k = fabs ar (A ! k ! i)" for k
  define m where "m = fst (running_max ar A i n)"
  define im where "im = snd (running_max ar A i n)"
  define r where "r = i + n"
  have irr: "\<not> fgt ar x x" if "x \<in> S" for x
    using swo that by (simp add: strict_weak_order_on_def)
  have tr: "fgt ar x z" if "x \<in> S" "y \<in> S" "z \<in> S" "fgt ar x y" "fgt ar y z" for x y z
    using swo that unfolding strict_weak_order_on_def by blast
  have ntr: "\<not> fgt ar x z" if "x \<in> S" "y \<in> S" "z \<in> S" "\<not> fgt ar x y" "\<not> fgt ar y z" for x y z
    using swo that unfolding strict_weak_order_on_def by blast
  have inS: "a k \<in> S" if "i \<le> k" "k < N" for k
    using that by (simp add: S_def column_abs_def a_def)
  from Suc.prems have rN: "r < N" "i \<le> r" by (simp_all add: r_def)
  from Suc.prems have "i + n \<le> N" by simp
  from Suc.IH [OF this] have
    mS: "m \<in> S"
    and below: "\<And>k. i \<le> k \<Longrightarrow> k < r \<Longrightarrow> \<not> fgt ar (a k) m"
    and first: "running_max ar A i n = (lit0 ar, i) \<or>
       (i \<le> im \<and> im < r \<and> m = a im \<and> (\<forall>k. i \<le> k \<and> k < im \<longrightarrow> fgt ar m (a k)))"
    by (simp_all add: m_def im_def a_def r_def)
  have arS: "a r \<in> S" using rN by (simp add: inS)
  show ?case
  proof (cases "fgt ar (a r) m")
    case True
    then have new: "running_max ar A i (Suc n) = (a r, r)"
      by (simp add: a_def m_def r_def Let_def)
    have b1: "\<not> fgt ar (a k) (a r)" if "i \<le> k" "k < i + Suc n" for k
    proof (cases "k = r")
      case True
      with irr [OF arS] show ?thesis by simp
    next
      case False
      with that have kr: "k < r" by (simp add: r_def)
      with rN have kN: "k < N" by simp
      show ?thesis
      proof
        assume "fgt ar (a k) (a r)"
        from tr [OF inS [OF that(1) kN] arS mS this True] below [OF that(1) kr]
        show False by simp
      qed
    qed
    have b2: "fgt ar (a r) (a k)" if "i \<le> k" "k < r" for k
    proof (rule ccontr)
      assume "\<not> fgt ar (a r) (a k)"
      from that rN have kN: "k < N" by simp
      from ntr [OF arS inS [OF that(1) kN] mS \<open>\<not> fgt ar (a r) (a k)\<close> below [OF that]] True
      show False by simp
    qed
    from arS b1 b2 rN show ?thesis
      unfolding new by (simp add: a_def r_def)
  next
    case False
    then have same: "running_max ar A i (Suc n) = running_max ar A i n"
      by (simp add: a_def m_def r_def Let_def)
    have b1: "\<not> fgt ar (a k) m" if "i \<le> k" "k < i + Suc n" for k
    proof (cases "k = r")
      case True
      with False show ?thesis by simp
    next
      case False
      with that have "k < r" by (simp add: r_def)
      with below that(1) show ?thesis by simp
    qed
    from first have "running_max ar A i n = (lit0 ar, i) \<or>
       (i \<le> im \<and> im < i + Suc n \<and> m = a im \<and> (\<forall>k. i \<le> k \<and> k < im \<longrightarrow> fgt ar m (a k)))"
      by (auto simp: r_def)
    with mS b1 show ?thesis
      unfolding same by (simp add: m_def im_def a_def)
  qed
qed

lemma real_strict_weak_order: "strict_weak_order_on S (fgt real_arith)"
  by (auto simp: strict_weak_order_on_def real_arith_def)

section \<open>The normal equations\<close>

lemma power_loop:
  fixes ar :: "'a arith" and XY xxSum inX inY :: "'a list"
  assumes i: "i < length inX" "i < length inY"
    and XY: "length XY = nCoef" and xs: "length xxSum = nPower"
  shows "\<exists>XY' xs'. for_loop [0..<nPower] (power_step ar inX inY nCoef i) (XY, xxSum, lit1 ar)
             = Some (XY', xs', fpow ar (inX ! i) nPower) \<and>
           length XY' = nCoef \<and> length xs' = nPower \<and>
           (\<forall>j<nCoef. XY' ! j = (if j < nPower
                                 then fadd ar (XY ! j) (fmul ar (inY ! i) (fpow ar (inX ! i) j))
                                 else XY ! j)) \<and>
           (\<forall>j<nPower. xs' ! j = fadd ar (xxSum ! j) (fpow ar (inX ! i) j))"
proof -
  define Inv :: "nat \<Rightarrow> 'a list \<times> 'a list \<times> 'a \<Rightarrow> bool" where
    "Inv k s \<longleftrightarrow> length (fst s) = nCoef \<and> length (fst (snd s)) = nPower \<and>
       snd (snd s) = fpow ar (inX ! i) k \<and>
       (\<forall>j<nCoef. fst s ! j = (if j < k
                                then fadd ar (XY ! j) (fmul ar (inY ! i) (fpow ar (inX ! i) j))
                                else XY ! j)) \<and>
       (\<forall>j<nPower. fst (snd s) ! j = (if j < k then fadd ar (xxSum ! j) (fpow ar (inX ! i) j)
                                       else xxSum ! j))" for k s
  have "\<exists>s. for_loop [0..<nPower] (power_step ar inX inY nCoef i) (XY, xxSum, lit1 ar) = Some s
           \<and> Inv nPower s"
  proof (rule for_loop_upt_rule)
    show "0 \<le> nPower" by simp
    show "Inv 0 (XY, xxSum, lit1 ar)" using XY xs by (simp add: Inv_def)
  next
    fix k and t :: "'a list \<times> 'a list \<times> 'a"
    assume k: "k < nPower" and inv: "Inv k t"
    obtain XY1 xs1 acc where t: "t = (XY1, xs1, acc)" by (cases t)
    from inv k i show "\<exists>t'. power_step ar inX inY nCoef i k t = Some t' \<and> Inv (Suc k) t'"
      unfolding t Inv_def
      by (auto simp: power_step_def rd_def wr_def nth_list_update less_Suc_eq)
  qed
  then obtain s where s: "for_loop [0..<nPower] (power_step ar inX inY nCoef i) (XY, xxSum, lit1 ar) = Some s"
    "Inv nPower s" by blast
  obtain XY' xs' acc where s_eq: "s = (XY', xs', acc)" by (cases s)
  from s show ?thesis unfolding s_eq Inv_def by auto
qed

lemma power_sum_snoc:
  "power_sum ar (xs @ [x]) k = fadd ar (power_sum ar xs k) (fpow ar x k)"
  by (simp add: power_sum_def)

lemma moment_sum_snoc:
  "length xs = length ys \<Longrightarrow>
     moment_sum ar (xs @ [x]) (ys @ [y]) j
       = fadd ar (moment_sum ar xs ys j) (fmul ar y (fpow ar x j))"
  by (simp add: moment_sum_def)

lemma samples_loop:
  fixes ar :: "'a arith" and inX inY :: "'a list"
  assumes n: "n \<le> length inX" "n \<le> length inY" and le: "nCoef \<le> nPower"
  shows "\<exists>XY' xs'. for_loop [0..<n] (sample_step ar inX inY nCoef nPower)
                      (replicate nCoef (lit0 ar), replicate nPower (lit0 ar)) = Some (XY', xs') \<and>
           length XY' = nCoef \<and> length xs' = nPower \<and>
           (\<forall>j<nCoef. XY' ! j = moment_sum ar (take n inX) (take n inY) j) \<and>
           (\<forall>j<nPower. xs' ! j = power_sum ar (take n inX) j)"
proof -
  define Inv :: "nat \<Rightarrow> 'a list \<times> 'a list \<Rightarrow> bool" where
    "Inv k s \<longleftrightarrow> length (fst s) = nCoef \<and> length (snd s) = nPower \<and>
       (\<forall>j<nCoef. fst s ! j = moment_sum ar (take k inX) (take k inY) j) \<and>
       (\<forall>j<nPower. snd s ! j = power_sum ar (take k inX) j)" for k s
  have "\<exists>s. for_loop [0..<n] (sample_step ar inX inY nCoef nPower)
               (replicate nCoef (lit0 ar), replicate nPower (lit0 ar)) = Some s \<and> Inv n s"
  proof (rule for_loop_upt_rule)
    show "0 \<le> n" by simp
    show "Inv 0 (replicate nCoef (lit0 ar), replicate nPower (lit0 ar))"
      by (simp add: Inv_def moment_sum_def power_sum_def)
  next
    fix k and t :: "'a list \<times> 'a list"
    assume k: "k < n" and inv: "Inv k t"
    obtain XY1 xs1 where t: "t = (XY1, xs1)" by (cases t)
    from k n have kx: "k < length inX" and ky: "k < length inY" by simp_all
    from inv have len: "length XY1 = nCoef" "length xs1 = nPower" by (simp_all add: t Inv_def)
    from power_loop [OF kx ky len, of ar] obtain XY' xs' where
      run: "for_loop [0..<nPower] (power_step ar inX inY nCoef k) (XY1, xs1, lit1 ar)
              = Some (XY', xs', fpow ar (inX ! k) nPower)"
      and len': "length XY' = nCoef" "length xs' = nPower"
      and XY': "\<And>j. j < nCoef \<Longrightarrow> XY' ! j = (if j < nPower
                   then fadd ar (XY1 ! j) (fmul ar (inY ! k) (fpow ar (inX ! k) j)) else XY1 ! j)"
      and xs': "\<And>j. j < nPower \<Longrightarrow> xs' ! j = fadd ar (xs1 ! j) (fpow ar (inX ! k) j)"
      by blast
    have step: "sample_step ar inX inY nCoef nPower k t = Some (XY', xs')"
      by (simp add: sample_step_def t run)
    have tk: "take (Suc k) inX = take k inX @ [inX ! k]" "take (Suc k) inY = take k inY @ [inY ! k]"
      using kx ky by (simp_all add: take_Suc_conv_app_nth)
    have lk: "length (take k inX) = length (take k inY)" using kx ky by simp
    have "Inv (Suc k) (XY', xs')"
      unfolding Inv_def using inv le len'
      by (auto simp: t Inv_def XY' xs' tk power_sum_snoc moment_sum_snoc [OF lk])
    with step show "\<exists>t'. sample_step ar inX inY nCoef nPower k t = Some t' \<and> Inv (Suc k) t'"
      by blast
  qed
  then obtain s where s: "for_loop [0..<n] (sample_step ar inX inY nCoef nPower)
       (replicate nCoef (lit0 ar), replicate nPower (lit0 ar)) = Some s" "Inv n s" by blast
  obtain XY' xs' where s_eq: "s = (XY', xs')" by (cases s)
  from s show ?thesis unfolding s_eq Inv_def by auto
qed

lemma assemble_entry_square:
  assumes sq: "square XX n" and i: "i < n" and j: "j < n" and s: "i + j < length xxSum"
    and small: "i + j < 2 ^ 32"
  shows "\<exists>XX'. assemble_entry xxSum i j XX = Some XX' \<and> square XX' n \<and>
           (\<forall>r<n. \<forall>c<n. XX' ! r ! c =
              (if (r = i \<and> c = j) \<or> (r = j \<and> c = i) then xxSum ! (i + j) else XX ! r ! c))"
proof -
  define XX1 where "XX1 = XX[i := (XX ! i)[j := xxSum ! (i + j)]]"
  define XX2 where "XX2 = XX1[j := (XX1 ! j)[i := XX1 ! i ! j]]"
  have sq1: "square XX1 n" unfolding XX1_def using sq i by (rule square_update_entry)
  have sq2: "square XX2 n" unfolding XX2_def using sq1 j by (rule square_update_entry)
  have n1: "XX1 ! r ! c = (if r = i \<and> c = j then xxSum ! (i + j) else XX ! r ! c)"
    if "r < n" "c < n" for r c
    unfolding XX1_def using sq i j that by (rule nth_update_entry)
  have n2: "XX2 ! r ! c = (if r = j \<and> c = i then XX1 ! i ! j else XX1 ! r ! c)"
    if "r < n" "c < n" for r c
    unfolding XX2_def using sq1 j i that by (rule nth_update_entry)
  have r1: "rd xxSum ((i + j) mod 2 ^ 32) = Some (xxSum ! (i + j))"
    using s small by (simp add: rd_def)
  have w1: "wr2 XX i j (xxSum ! (i + j)) = Some XX1"
    unfolding XX1_def using sq i j by (rule wr2_square)
  have r2: "rd2 XX1 i j = Some (XX1 ! i ! j)" using sq1 i j by (rule rd2_square)
  have w2: "wr2 XX1 j i (XX1 ! i ! j) = Some XX2"
    unfolding XX2_def using sq1 j i by (rule wr2_square)
  have run: "assemble_entry xxSum i j XX = Some XX2"
    using r1 w1 r2 w2 by (simp add: assemble_entry_def)
  have v: "XX1 ! i ! j = xxSum ! (i + j)" using n1 [OF i j] by simp
  have "XX2 ! r ! c = (if (r = i \<and> c = j) \<or> (r = j \<and> c = i) then xxSum ! (i + j) else XX ! r ! c)"
    if rc: "r < n" "c < n" for r c
  proof (cases "r = j \<and> c = i")
    case True
    then have c: "((r = i \<and> c = j) \<or> (r = j \<and> c = i)) = True" by blast
    from n2 [OF rc] True have e: "XX2 ! r ! c = XX1 ! i ! j" by (simp only: if_True simp_thms)
    show ?thesis by (simp only: e v c if_True)
  next
    case False
    then have c: "((r = i \<and> c = j) \<or> (r = j \<and> c = i)) = (r = i \<and> c = j)" by blast
    from n2 [OF rc] False have e: "XX2 ! r ! c = XX1 ! r ! c" by (simp only: if_False simp_thms)
    show ?thesis by (simp only: e n1 [OF rc] c)
  qed
  with run sq2 show ?thesis by blast
qed

lemma assemble_row_loop:
  fixes xxSum :: "'a list"
  assumes len: "2 * n \<le> length xxSum + 1" and small: "2 * n \<le> 2 ^ 32" and i: "i < n"
    and sq: "square XX n"
    and prev: "\<And>r c. r < n \<Longrightarrow> c < n \<Longrightarrow> r < i \<or> c < i \<Longrightarrow> XX ! r ! c = xxSum ! (r + c)"
  shows "\<exists>XX'. for_loop [0..<n] (assemble_entry xxSum i) XX = Some XX' \<and> square XX' n \<and>
           (\<forall>r<n. \<forall>c<n. r < Suc i \<or> c < Suc i \<longrightarrow> XX' ! r ! c = xxSum ! (r + c))"
proof -
  define Inv :: "nat \<Rightarrow> 'a matrix \<Rightarrow> bool" where
    "Inv j B \<longleftrightarrow> square B n \<and>
       (\<forall>r<n. \<forall>c<n. r < i \<or> c < i \<or> (r = i \<and> c < j) \<or> (c = i \<and> r < j)
          \<longrightarrow> B ! r ! c = xxSum ! (r + c))" for j B
  have "\<exists>XX'. for_loop [0..<n] (assemble_entry xxSum i) XX = Some XX' \<and> Inv n XX'"
  proof (rule for_loop_upt_rule)
    show "0 \<le> n" by simp
    show "Inv 0 XX" unfolding Inv_def using sq prev by blast
  next
    fix j and B :: "'a matrix"
    assume j: "j < n" and inv: "Inv j B"
    from inv have sqB: "square B n" by (simp add: Inv_def)
    from inv have old: "\<And>r c. r < n \<Longrightarrow> c < n \<Longrightarrow>
        r < i \<or> c < i \<or> (r = i \<and> c < j) \<or> (c = i \<and> r < j) \<Longrightarrow> B ! r ! c = xxSum ! (r + c)"
      unfolding Inv_def by blast
    from i j len have s1: "i + j < length xxSum" by linarith
    from i j small have s2: "i + j < 2 ^ 32" by linarith
    from assemble_entry_square [OF sqB i j s1 s2] obtain B' where
      run: "assemble_entry xxSum i j B = Some B'" and sqB': "square B' n"
      and ent: "\<And>r c. r < n \<Longrightarrow> c < n \<Longrightarrow> B' ! r ! c =
         (if (r = i \<and> c = j) \<or> (r = j \<and> c = i) then xxSum ! (i + j) else B ! r ! c)"
      by blast
    have new: "B' ! r ! c = xxSum ! (r + c)"
      if rc: "r < n" "c < n"
        and D: "r < i \<or> c < i \<or> (r = i \<and> c < Suc j) \<or> (c = i \<and> r < Suc j)" for r c
    proof (cases "(r = i \<and> c = j) \<or> (r = j \<and> c = i)")
      case True
      then have sum: "i + j = r + c" by linarith
      from ent [OF rc] True have "B' ! r ! c = xxSum ! (i + j)" by (simp only: if_True)
      then show ?thesis by (simp only: sum)
    next
      case False
      with D have "r < i \<or> c < i \<or> (r = i \<and> c < j) \<or> (c = i \<and> r < j)" by linarith
      from old [OF rc this] have e: "B ! r ! c = xxSum ! (r + c)" .
      from ent [OF rc] False have "B' ! r ! c = B ! r ! c" by (simp only: if_False)
      then show ?thesis by (simp only: e)
    qed
    have "Inv (Suc j) B'" unfolding Inv_def using sqB' new by blast
    with run show "\<exists>t'. assemble_entry xxSum i j B = Some t' \<and> Inv (Suc j) t'" by blast
  qed
  then obtain XX' where run: "for_loop [0..<n] (assemble_entry xxSum i) XX = Some XX'"
    and inv: "Inv n XX'" by blast
  have "XX' ! r ! c = xxSum ! (r + c)" if "r < n" "c < n" "r < Suc i \<or> c < Suc i" for r c
  proof -
    from that have "r < i \<or> c < i \<or> (r = i \<and> c < n) \<or> (c = i \<and> r < n)" by linarith
    with inv that(1,2) show ?thesis unfolding Inv_def by blast
  qed
  with run inv show ?thesis unfolding Inv_def by blast
qed

lemma assemble_loop:
  fixes xxSum :: "'a list"
  assumes len: "2 * n \<le> length xxSum + 1" and small: "2 * n \<le> 2 ^ 32" and sq: "square XX n"
  shows "\<exists>XX'. for_loop [0..<n] (\<lambda>i. for_loop [0..<n] (assemble_entry xxSum i)) XX = Some XX' \<and>
           square XX' n \<and> (\<forall>r<n. \<forall>c<n. XX' ! r ! c = xxSum ! (r + c))"
proof -
  define Inv :: "nat \<Rightarrow> 'a matrix \<Rightarrow> bool" where
    "Inv i B \<longleftrightarrow> square B n \<and> (\<forall>r<n. \<forall>c<n. r < i \<or> c < i \<longrightarrow> B ! r ! c = xxSum ! (r + c))"
    for i B
  have "\<exists>XX'. for_loop [0..<n] (\<lambda>i. for_loop [0..<n] (assemble_entry xxSum i)) XX = Some XX'
          \<and> Inv n XX'"
  proof (rule for_loop_upt_rule)
    show "0 \<le> n" by simp
    show "Inv 0 XX" unfolding Inv_def using sq by simp
  next
    fix i and B :: "'a matrix"
    assume i: "i < n" and inv: "Inv i B"
    from inv have sqB: "square B n"
      and prev: "\<And>r c. r < n \<Longrightarrow> c < n \<Longrightarrow> r < i \<or> c < i \<Longrightarrow> B ! r ! c = xxSum ! (r + c)"
      unfolding Inv_def by blast+
    from assemble_row_loop [OF len small i sqB prev]
    show "\<exists>t'. for_loop [0..<n] (assemble_entry xxSum i) B = Some t' \<and> Inv (Suc i) t'"
      unfolding Inv_def by blast
  qed
  then show ?thesis unfolding Inv_def by blast
qed

lemma degree_sizes:
  fixes d :: "32 word"
  assumes "unat d < 2 ^ 31"
  shows "unat (d + 1) = unat d + 1" and "unat (d + 1 + d) = 2 * unat d + 1"
proof -
  have "unat d + unat (1 :: 32 word) < 2 ^ LENGTH(32)" using assms by simp
  then have a: "unat (d + 1) = unat d + unat (1 :: 32 word)" by (simp only: unat_add_lem)
  then show b: "unat (d + 1) = unat d + 1" by simp
  have "unat (d + 1) + unat d < 2 ^ LENGTH(32)" using assms b by simp
  then have "unat (d + 1 + d) = unat (d + 1) + unat d" by (simp only: unat_add_lem)
  with b show "unat (d + 1 + d) = 2 * unat d + 1" by simp
qed

lemma square_normal_matrix: "square (normal_matrix ar xs n) (n + 1)"
  by (auto simp: square_def normal_matrix_def simp del: upt_Suc)

lemma normal_matrix_nth:
  "r \<le> n \<Longrightarrow> c \<le> n \<Longrightarrow> normal_matrix ar xs n ! r ! c = power_sum ar xs (r + c)"
  by (simp add: normal_matrix_def del: upt_Suc)

lemma square_eqI:
  assumes "square A n" "square B n" and "\<And>r c. r < n \<Longrightarrow> c < n \<Longrightarrow> A ! r ! c = B ! r ! c"
  shows "A = B"
proof (rule nth_equalityI)
  show "length A = length B" using assms(1,2) by (simp add: square_def)
next
  fix r
  assume "r < length A"
  with assms(1) have r: "r < n" by (simp add: square_def)
  show "A ! r = B ! r"
  proof (rule nth_equalityI)
    show "length (A ! r) = length (B ! r)" using assms(1,2) r by (simp add: square_row)
  next
    fix c
    assume "c < length (A ! r)"
    with assms(1) r have "c < n" by (simp add: square_row)
    with r show "A ! r ! c = B ! r ! c" by (rule assms(3))
  qed
qed

lemma normal_equations_run:
  fixes ar :: "'a arith" and inX inY :: "'a list" and d :: "32 word"
  assumes eq: "length inX = length inY" and d: "unat d < 2 ^ 31"
  defines "n \<equiv> length inX mod 2 ^ 32"
  shows "normal_equations ar inX inY d
           = Some (normal_matrix ar (take n inX) (unat d),
                   normal_vector ar (take n inX) (take n inY) (unat d))"
proof -
  define nCoef where "nCoef = unat d + 1"
  define nPower where "nPower = 2 * unat d + 1"
  have nX: "unat (word_of_nat (length inX) :: 32 word) = n"
    by (simp add: n_def unat_of_nat)
  have n: "n \<le> length inX" "n \<le> length inY"
    using eq by (simp_all add: n_def mod_le_divisor mod_less_eq_dividend)
  have le: "nCoef \<le> nPower" by (simp add: nCoef_def nPower_def)
  from samples_loop [OF n le, of ar] obtain XY' xs' where
    run1: "for_loop [0..<n] (sample_step ar inX inY nCoef nPower)
             (replicate nCoef (lit0 ar), replicate nPower (lit0 ar)) = Some (XY', xs')"
    and len: "length XY' = nCoef" "length xs' = nPower"
    and XY': "\<And>j. j < nCoef \<Longrightarrow> XY' ! j = moment_sum ar (take n inX) (take n inY) j"
    and xs': "\<And>j. j < nPower \<Longrightarrow> xs' ! j = power_sum ar (take n inX) j"
    by blast
  have sq0: "square (replicate nCoef (replicate nCoef (lit0 ar))) nCoef"
    by (simp add: square_def)
  have l2: "2 * nCoef \<le> length xs' + 1" by (simp add: len nCoef_def nPower_def)
  have s2: "2 * nCoef \<le> (2 :: nat) ^ 32" using d by (simp add: nCoef_def)
  from assemble_loop [OF l2 s2 sq0] obtain XX' where
    run2: "for_loop [0..<nCoef] (\<lambda>i. for_loop [0..<nCoef] (assemble_entry xs' i))
             (replicate nCoef (replicate nCoef (lit0 ar))) = Some XX'"
    and sq: "square XX' nCoef"
    and XX': "\<And>r c. r < nCoef \<Longrightarrow> c < nCoef \<Longrightarrow> XX' ! r ! c = xs' ! (r + c)"
    by blast
  have mat: "XX' = normal_matrix ar (take n inX) (unat d)"
  proof (rule square_eqI [OF sq])
    show "square (normal_matrix ar (take n inX) (unat d)) nCoef"
      unfolding nCoef_def by (rule square_normal_matrix)
  next
    fix r c
    assume rc: "r < nCoef" "c < nCoef"
    then have "r + c < nPower" by (simp add: nCoef_def nPower_def)
    with rc show "XX' ! r ! c = normal_matrix ar (take n inX) (unat d) ! r ! c"
      by (simp add: XX' xs' normal_matrix_nth nCoef_def)
  qed
  have vec: "XY' = normal_vector ar (take n inX) (take n inY) (unat d)"
  proof (rule nth_equalityI)
    show "length XY' = length (normal_vector ar (take n inX) (take n inY) (unat d))"
      by (simp add: len normal_vector_def nCoef_def)
  next
    fix j
    assume "j < length XY'"
    then have "j < nCoef" by (simp add: len)
    then show "XY' ! j = normal_vector ar (take n inX) (take n inY) (unat d) ! j"
      by (simp add: XY' normal_vector_def nCoef_def del: upt_Suc)
  qed
  show ?thesis
    unfolding normal_equations_def Let_def degree_sizes [OF d] nX
    using run1 run2 by (simp add: nCoef_def nPower_def mat vec)
qed

section \<open>polyFit as a whole\<close>

lemma polyFit_solve:
  "polyFit ar outPolCoef inX inY d =
     (case normal_equations ar inX inY d of
        None \<Rightarrow> None
      | Some (XX, XY) \<Rightarrow>
          (case LUPSolve ar (resize outPolCoef (unat (d + 1)) (lit0 ar)) XX XY (unat (d + 1)) of
             None \<Rightarrow> None
           | Some (e, c, A') \<Rightarrow> Some (e, c)))"
  by (simp add: polyFit_def Let_def split: option.splits prod.splits)

lemma length_resize: "length (resize v n c) = n"
  by (simp add: resize_def)

lemma length_normal_vector: "length (normal_vector ar xs ys n) = n + 1"
  by (simp add: normal_vector_def)

lemma normal_vector_nth: "j \<le> n \<Longrightarrow> normal_vector ar xs ys n ! j = moment_sum ar xs ys j"
  by (simp add: normal_vector_def del: upt_Suc)

lemma polyFit_run:
  fixes ar :: "'a arith" and inX inY outPolCoef :: "'a list" and d :: "32 word"
  assumes eq: "length inX = length inY" and d: "unat d < 2 ^ 31"
  defines "n \<equiv> length inX mod 2 ^ 32"
  defines "XX \<equiv> normal_matrix ar (take n inX) (unat d)"
  defines "XY \<equiv> normal_vector ar (take n inX) (take n inY) (unat d)"
  defines "out0 \<equiv> resize outPolCoef (unat d + 1) (lit0 ar)"
  shows "\<exists>c A'. LUPSolve ar out0 XX XY (unat d + 1)
            = Some (if \<exists>i<unat d + 1. degenerate_at ar (unat d + 1) (lit_tol ar) XX [0..<unat d + 1 + 1] i
                    then 1 else 0, c, A') \<and>
          polyFit ar outPolCoef inX inY d
            = Some (if \<exists>i<unat d + 1. degenerate_at ar (unat d + 1) (lit_tol ar) XX [0..<unat d + 1 + 1] i
                    then 1 else 0, c) \<and>
          length c = unat d + 1 \<and>
          ((\<exists>i<unat d + 1. degenerate_at ar (unat d + 1) (lit_tol ar) XX [0..<unat d + 1 + 1] i)
             \<longrightarrow> c = out0)"
proof -
  have ne: "normal_equations ar inX inY d = Some (XX, XY)"
    unfolding XX_def XY_def n_def using eq d by (rule normal_equations_run)
  have sq: "square XX (unat d + 1)" unfolding XX_def by (rule square_normal_matrix)
  have N: "unat d + 1 + 1 < (2 :: nat) ^ 32" using d by simp
  have b: "length XY = unat d + 1" unfolding XY_def by (rule length_normal_vector)
  have x: "unat d + 1 \<le> length out0" by (simp add: out0_def length_resize)
  from LUPSolve_run [OF sq N b x, of ar] obtain c A' where
    run: "LUPSolve ar out0 XX XY (unat d + 1)
            = Some (if \<exists>i<unat d + 1. degenerate_at ar (unat d + 1) (lit_tol ar) XX [0..<unat d + 1 + 1] i
                    then 1 else 0, c, A')"
    and len: "length c = length out0"
    and same: "(\<exists>i<unat d + 1. degenerate_at ar (unat d + 1) (lit_tol ar) XX [0..<unat d + 1 + 1] i)
                 \<longrightarrow> c = out0"
    by blast
  have "polyFit ar outPolCoef inX inY d
          = Some (if \<exists>i<unat d + 1. degenerate_at ar (unat d + 1) (lit_tol ar) XX [0..<unat d + 1 + 1] i
                  then 1 else 0, c)"
    unfolding polyFit_solve ne degree_sizes(1) [OF d] using run by (simp add: out0_def)
  with run len same show ?thesis by (auto simp: out0_def length_resize)
qed

lemma running_max_zero_column:
  assumes z: "\<not> fgt ar (fabs ar (lit0 ar)) (lit0 ar)"
  shows "(\<forall>k. i \<le> k \<and> k < i + n \<longrightarrow> A ! k ! i = lit0 ar) \<Longrightarrow> running_max ar A i n = (lit0 ar, i)"
proof (induction n)
  case 0
  show ?case by simp
next
  case (Suc n)
  then have "running_max ar A i n = (lit0 ar, i)" "A ! (i + n) ! i = lit0 ar" by simp_all
  with z show ?case by (simp add: Let_def)
qed

lemma normal_matrix_empty:
  "normal_matrix ar [] n = replicate (n + 1) (replicate (n + 1) (lit0 ar))"
  by (simp add: normal_matrix_def power_sum_def map_replicate_const del: upt_Suc replicate_Suc)

lemma normal_vector_empty: "normal_vector ar [] [] n = replicate (n + 1) (lit0 ar)"
proof -
  have "moment_sum ar [] [] = (\<lambda>j. lit0 ar)" by (simp add: moment_sum_def fun_eq_iff)
  then show ?thesis
    by (simp add: normal_vector_def map_replicate_const del: upt_Suc replicate_Suc)
qed

section \<open>Two runs on different output vectors\<close>

lemma for_loop_upt_rel:
  assumes "a \<le> b" and "R a s t"
    and step: "\<And>k s t. a \<le> k \<Longrightarrow> k < b \<Longrightarrow> R k s t \<Longrightarrow> rel_option (R (Suc k)) (body k s) (body k t)"
  shows "rel_option (R b) (for_loop [a..<b] body s) (for_loop [a..<b] body t)"
  using assms(1) step
proof (induction b)
  case 0
  with assms(2) show ?case by simp
next
  case (Suc b)
  show ?case
  proof (cases "a = Suc b")
    case True
    with assms(2) show ?thesis by simp
  next
    case False
    with Suc.prems have ab: "a \<le> b" by simp
    have ih: "rel_option (R b) (for_loop [a..<b] body s) (for_loop [a..<b] body t)"
      using Suc.IH [OF ab] Suc.prems(2) by simp
    show ?thesis
    proof (cases "for_loop [a..<b] body s")
      case None
      with ih have "for_loop [a..<b] body t = None" by (cases "for_loop [a..<b] body t") simp_all
      with None ab show ?thesis by (simp add: for_loop_append)
    next
      case (Some s')
      with ih obtain t' where t': "for_loop [a..<b] body t = Some t'" "R b s' t'"
        by (cases "for_loop [a..<b] body t") simp_all
      from Suc.prems(2) [OF ab _ t'(2)] have "rel_option (R (Suc b)) (body b s') (body b t')"
        by simp
      with Some t'(1) ab show ?thesis
        by (cases "body b s'"; cases "body b t'") (simp_all add: for_loop_append)
    qed
  qed
qed

lemma dot_step_rel:
  fixes x y :: "'a list"
  assumes len: "length x = n" "length y = n" and agree: "\<forall>r\<le>i. r < n \<longrightarrow> x ! r = y ! r"
    and k: "k \<le> i"
  shows "rel_option (\<lambda>x' y'. length x' = n \<and> length y' = n \<and> (\<forall>r\<le>i. r < n \<longrightarrow> x' ! r = y' ! r))
           (dot_step ar A i k x) (dot_step ar A i k y)"
proof (cases "i < n \<and> k < n")
  case False
  with len show ?thesis by (auto simp: dot_step_def rd_def split: Option.bind_split)
next
  case True
  with agree k have xi: "x ! i = y ! i" and xk: "x ! k = y ! k" by simp_all
  show ?thesis
  proof (cases "rd2 A i k")
    case None
    with True len show ?thesis by (simp add: dot_step_def rd_def)
  next
    case (Some aik)
    with True len agree show ?thesis
      by (simp add: dot_step_def rd_def wr_def xi xk nth_list_update)
  qed
qed

lemma fwd_row_rel:
  fixes x y :: "'a list"
  assumes len: "length x = n" "length y = n" and agree: "\<forall>r<i. r < n \<longrightarrow> x ! r = y ! r"
  shows "rel_option (\<lambda>x' y'. length x' = n \<and> length y' = n \<and> (\<forall>r<Suc i. r < n \<longrightarrow> x' ! r = y' ! r))
           (fwd_row ar A b P i x) (fwd_row ar A b P i y)"
proof (cases "rd P i")
  case None
  then show ?thesis by (simp add: fwd_row_def)
next
  case p: (Some p)
  show ?thesis
  proof (cases "rd b p")
    case None
    with p show ?thesis by (simp add: fwd_row_def)
  next
    case bp: (Some bp)
    show ?thesis
    proof (cases "i < n")
      case False
      with p bp len show ?thesis by (simp add: fwd_row_def wr_def)
    next
      case True
      define R where "R = (\<lambda>(k::nat) (x' :: 'a list) (y' :: 'a list).
        length x' = n \<and> length y' = n \<and> (\<forall>r\<le>i. r < n \<longrightarrow> x' ! r = y' ! r))"
      have start: "R 0 (x[i := bp]) (y[i := bp])"
        using len agree by (auto simp: R_def nth_list_update order_le_less)
      have "rel_option (R i) (for_loop [0..<i] (dot_step ar A i) (x[i := bp]))
              (for_loop [0..<i] (dot_step ar A i) (y[i := bp]))"
      proof (rule for_loop_upt_rel [where R = R])
        show "0 \<le> i" by simp
        show "R 0 (x[i := bp]) (y[i := bp])" by (rule start)
      next
        fix k and s t :: "'a list"
        assume "k < i" and "R k s t"
        then show "rel_option (R (Suc k)) (dot_step ar A i k s) (dot_step ar A i k t)"
          unfolding R_def using dot_step_rel [of s n t i k ar A] by simp
      qed
      moreover have "fwd_row ar A b P i x = for_loop [0..<i] (dot_step ar A i) (x[i := bp])"
        "fwd_row ar A b P i y = for_loop [0..<i] (dot_step ar A i) (y[i := bp])"
        using p bp True len by (simp_all add: fwd_row_def wr_def)
      ultimately show ?thesis
        by (simp add: R_def less_Suc_eq_le)
    qed
  qed
qed

lemma fwd_loop_same:
  fixes x y :: "'a list"
  assumes len: "length x = N" "length y = N"
  shows "for_loop [0..<N] (fwd_row ar A b P) x = for_loop [0..<N] (fwd_row ar A b P) y"
proof -
  define R where "R = (\<lambda>(i::nat) (x' :: 'a list) (y' :: 'a list).
    length x' = N \<and> length y' = N \<and> (\<forall>r<i. r < N \<longrightarrow> x' ! r = y' ! r))"
  have rel: "rel_option (R N) (for_loop [0..<N] (fwd_row ar A b P) x)
               (for_loop [0..<N] (fwd_row ar A b P) y)"
  proof (rule for_loop_upt_rel [where R = R])
    show "0 \<le> N" by simp
    show "R 0 x y" using len by (simp add: R_def)
  next
    fix k and s t :: "'a list"
    assume "R k s t"
    then show "rel_option (R (Suc k)) (fwd_row ar A b P k s) (fwd_row ar A b P k t)"
      unfolding R_def using fwd_row_rel [of s N t k ar A b P] by simp
  qed
  have eq: "s = t" if "R N s t" for s t
    using that by (auto simp: R_def intro: nth_equalityI)
  from rel show ?thesis
    by (cases "for_loop [0..<N] (fwd_row ar A b P) x"; cases "for_loop [0..<N] (fwd_row ar A b P) y")
       (simp_all add: eq)
qed

lemma LUPSolve_same:
  fixes x y :: "'a list"
  assumes len: "length x = N" "length y = N"
  shows "case LUPSolve ar x A b N of
           None \<Rightarrow> LUPSolve ar y A b N = None
         | Some (e, c, A') \<Rightarrow>
             if e = 0 then LUPSolve ar y A b N = Some (0, c, A')
             else e = 1 \<and> c = x \<and> LUPSolve ar y A b N = Some (1, y, A')"
  unfolding LUPSolve_def Let_def fwd_loop_same [OF len, of ar _ b]
  by (auto split: option.splits Option.bind_splits)

lemma polyFit_two_calls:
  "case polyFit ar outA inX inY d of
     None \<Rightarrow> polyFit ar outB inX inY d = None
   | Some (e, c) \<Rightarrow>
       if e = 0 then polyFit ar outB inX inY d = Some (0, c)
       else e = 1 \<and> c = resize outA (unat (d + 1)) (lit0 ar) \<and>
            polyFit ar outB inX inY d = Some (1, resize outB (unat (d + 1)) (lit0 ar))"
proof (cases "normal_equations ar inX inY d")
  case None
  then show ?thesis by (simp add: polyFit_solve)
next
  case (Some r)
  obtain XX XY where r: "r = (XX, XY)" by (cases r)
  have len: "length (resize outA (unat (d + 1)) (lit0 ar)) = unat (d + 1)"
    "length (resize outB (unat (d + 1)) (lit0 ar)) = unat (d + 1)"
    by (simp_all add: length_resize)
  from LUPSolve_same [OF len, of ar XX XY] show ?thesis
    unfolding polyFit_solve Some r
    by (auto split: option.splits if_splits)
qed

lemma resize_resize: "resize (resize v n c) n c = resize v n c"
  by (simp add: resize_def)

section \<open>Rows of zeros and repeated rows\<close>

lemma running_max_positive:
  assumes tr: "\<forall>a b c. fgt ar a b \<longrightarrow> fgt ar b c \<longrightarrow> fgt ar a c"
  shows "running_max ar A i n = (lit0 ar, i) \<or>
         (fst (running_max ar A i n) = fabs ar (A ! snd (running_max ar A i n) ! i) \<and>
          fgt ar (fst (running_max ar A i n)) (lit0 ar))"
proof (induction n)
  case 0
  show ?case by simp
next
  case (Suc n)
  define a where "a = fabs ar (A ! (i + n) ! i)"
  show ?case
  proof (cases "fgt ar a (fst (running_max ar A i n))")
    case False
    then have "running_max ar A i (Suc n) = running_max ar A i n" by (simp add: a_def Let_def)
    with Suc.IH show ?thesis by simp
  next
    case True
    then have new: "running_max ar A i (Suc n) = (a, i + n)" by (simp add: a_def Let_def)
    have "fgt ar a (lit0 ar)"
    proof (cases "running_max ar A i n = (lit0 ar, i)")
      case True
      with \<open>fgt ar a (fst (running_max ar A i n))\<close> show ?thesis by simp
    next
      case False
      with Suc.IH have "fgt ar (fst (running_max ar A i n)) (lit0 ar)" by blast
      with tr \<open>fgt ar a (fst (running_max ar A i n))\<close> show ?thesis by blast
    qed
    then show ?thesis unfolding new by (simp add: a_def)
  qed
qed

lemma pass_entry:
  assumes sq: "square B N" and iN: "i < N" and im: "i \<le> imax" "imax < N"
    and el: "eliminate ar N i (swap_mat B i imax) = Some B'"
    and r: "i \<le> r" "r < N" "r \<noteq> imax"
  defines "q \<equiv> (if r = i then imax else r)"
  shows "i < q" and "q < N"
    and "\<And>c. i < c \<Longrightarrow> c < N \<Longrightarrow>
           B' ! q ! c = fsub ar (B ! r ! c) (fmul ar (fdiv ar (B ! r ! i) (B ! imax ! i)) (B ! imax ! c))"
proof -
  define S where "S = swap_mat B i imax"
  have sqS: "square S N" unfolding S_def using sq iN im(2) by (rule square_swap_mat)
  show q1: "i < q" using r im by (auto simp: q_def)
  show q2: "q < N" using r im by (auto simp: q_def)
  have Sq: "S ! q = B ! r"
  proof (cases "r = i")
    case True
    then have "q = imax" by (simp add: q_def)
    with swap_mat_nth [OF sq iN im(2) im(2)] True show ?thesis by (simp add: S_def)
  next
    case False
    then have "q = r" by (simp add: q_def)
    with swap_mat_nth [OF sq iN im(2) r(2)] False r(3) show ?thesis by (simp add: S_def)
  qed
  have Si: "S ! i = B ! imax"
    using swap_mat_nth [OF sq iN im(2) iN] by (simp add: S_def)
  from eliminate_entries [OF sqS iN, of ar] el obtain
    ent: "\<And>r c. r < N \<Longrightarrow> c < N \<Longrightarrow> B' ! r ! c = (if i < r then elim_val ar S i r c else S ! r ! c)"
    unfolding S_def by auto
  fix c
  assume c: "i < c" "c < N"
  from ent [OF q2 c(2)] q1 have "B' ! q ! c = elim_val ar S i q c" by simp
  also have "\<dots> = fsub ar (S ! q ! c) (fmul ar (fdiv ar (S ! q ! i) (S ! i ! i)) (S ! i ! c))"
    using c(1) by (simp add: elim_val_def Let_def)
  finally show "B' ! q ! c
      = fsub ar (B ! r ! c) (fmul ar (fdiv ar (B ! r ! i) (B ! imax ! i)) (B ! imax ! c))"
    by (simp only: Sq Si)
qed

lemma doomed_pass:
  assumes laws: "degeneracy_laws ar Z" and sq: "square B N" and iN: "i < N"
    and pos: "fgt ar (fabs ar (B ! imax ! i)) (lit0 ar)"
    and im: "i \<le> imax" "imax < N"
    and el: "eliminate ar N i (swap_mat B i imax) = Some B'"
    and doom: "doomed Z B N i"
  shows "doomed Z B' N (Suc i)"
proof -
  from laws have h2: "\<And>z. Z z \<Longrightarrow> \<not> fgt ar (fabs ar z) (lit0 ar)"
    and h4: "\<And>z a p b. Z z \<Longrightarrow> Z a \<Longrightarrow> Z (fsub ar a (fmul ar (fdiv ar z p) b))"
    and h5: "\<And>a b. fgt ar (fabs ar a) (lit0 ar) \<Longrightarrow> Z (fsub ar b (fmul ar (fdiv ar a a) b))"
    unfolding degeneracy_laws_def by blast+
  note pe = pass_entry [OF sq iN im el]
  have twin_pivot: "\<exists>r. zero_row Z B' N (Suc i) r"
    if t: "twin_rows B N i imax r2" for r2
  proof -
    from t have r2: "i \<le> r2" "r2 < N" "r2 \<noteq> imax"
      and same: "\<And>k. i \<le> k \<Longrightarrow> k < N \<Longrightarrow> B ! imax ! k = B ! r2 ! k"
      unfolding twin_rows_def by blast+
    define q where "q = (if r2 = i then imax else r2)"
    note e = pe [OF r2, folded q_def]
    have "Z (B' ! q ! k)" if k: "Suc i \<le> k" "k < N" for k
    proof -
      from k have k': "i < k" "i \<le> k" by simp_all
      have "B' ! q ! k = fsub ar (B ! imax ! k)
              (fmul ar (fdiv ar (B ! imax ! i) (B ! imax ! i)) (B ! imax ! k))"
        by (simp only: e(3) [OF k'(1) k(2)] same [OF k'(2) k(2), symmetric]
              same [OF order_refl iN, symmetric])
      with h5 [OF pos] show ?thesis by (simp only:)
    qed
    with e(1,2) have "zero_row Z B' N (Suc i) q" unfolding zero_row_def by simp
    then show ?thesis by blast
  qed
  from doom consider (zero) r where "zero_row Z B N i r"
    | (twin) r1 r2 where "twin_rows B N i r1 r2"
    unfolding doomed_def by blast
  then show ?thesis
  proof cases
    case zero
    then have r: "i \<le> r" "r < N" and z: "\<And>k. i \<le> k \<Longrightarrow> k < N \<Longrightarrow> Z (B ! r ! k)"
      unfolding zero_row_def by blast+
    have ne: "r \<noteq> imax"
    proof
      assume "r = imax"
      with z [OF order_refl iN] have "Z (B ! imax ! i)" by simp
      with h2 pos show False by blast
    qed
    define q where "q = (if r = i then imax else r)"
    note e = pe [OF r ne, folded q_def]
    have "Z (B' ! q ! k)" if k: "Suc i \<le> k" "k < N" for k
    proof -
      from k have k': "i < k" "i \<le> k" by simp_all
      from h4 [OF z [OF order_refl iN] z [OF k'(2) k(2)]] show ?thesis
        by (simp only: e(3) [OF k'(1) k(2)])
    qed
    with e(1,2) have "zero_row Z B' N (Suc i) q" unfolding zero_row_def by simp
    then show ?thesis unfolding doomed_def by blast
  next
    case twin
    then have r1: "i \<le> r1" "r1 < N" and r2: "i \<le> r2" "r2 < N" and ne: "r1 \<noteq> r2"
      and same: "\<And>k. i \<le> k \<Longrightarrow> k < N \<Longrightarrow> B ! r1 ! k = B ! r2 ! k"
      unfolding twin_rows_def by blast+
    show ?thesis
    proof (cases "imax = r1 \<or> imax = r2")
      case True
      then have "(\<exists>r. twin_rows B N i imax r)"
      proof
        assume "imax = r1"
        with twin show ?thesis by blast
      next
        assume "imax = r2"
        with r1 r2 ne same have "twin_rows B N i imax r1"
          unfolding twin_rows_def by simp
        then show ?thesis by blast
      qed
      with twin_pivot show ?thesis unfolding doomed_def by blast
    next
      case False
      then have n1: "r1 \<noteq> imax" and n2: "r2 \<noteq> imax" by blast+
      define q1 where "q1 = (if r1 = i then imax else r1)"
      define q2 where "q2 = (if r2 = i then imax else r2)"
      note e1 = pe [OF r1 n1, folded q1_def]
      note e2 = pe [OF r2 n2, folded q2_def]
      have q: "q1 \<noteq> q2" using ne n1 n2 by (auto simp: q1_def q2_def)
      have "B' ! q1 ! k = B' ! q2 ! k" if k: "Suc i \<le> k" "k < N" for k
      proof -
        from k have k': "i < k" "i \<le> k" by simp_all
        show ?thesis
          by (simp only: e1(3) [OF k'(1) k(2)] e2(3) [OF k'(1) k(2)] same [OF k'(2) k(2)]
                same [OF order_refl iN])
      qed
      with e1(1,2) e2(1,2) q have "twin_rows B' N (Suc i) q1 q2"
        unfolding twin_rows_def by simp
      then show ?thesis unfolding doomed_def by blast
    qed
  qed
qed

lemma doomed_state:
  assumes laws: "degeneracy_laws ar Z" and tol: "flt ar (lit0 ar) Tol"
    and sq: "square A N" and P: "N < length P" and Pr: "\<forall>k<N. P ! k < N"
    and doom: "doomed Z A N 0"
  shows "i \<le> N \<Longrightarrow> state_at ar N Tol A P i = Some (B, Q) \<Longrightarrow> doomed Z B N i"
proof (induction i arbitrary: B Q)
  case 0
  with doom show ?case by simp
next
  case (Suc i)
  from Suc.prems(2) obtain B0 Q0 where
    prev: "state_at ar N Tol A P i = Some (B0, Q0)"
    and st: "pivot_stage ar N Tol i B0 Q0 = Some (Eliminated B Q)"
    by (rule state_at_Suc_Some)
  from Suc.prems(1) have iN: "i < N" "i \<le> N" by simp_all
  from state_at_invariant [OF sq P Pr iN(2) prev] have
    inv: "square B0 N" "length Q0 = length P" by simp_all
  from inv(2) P have Q0: "N < length Q0" by simp
  from pivot_stage_Eliminated [OF inv(1) iN(1) Q0 st] obtain m imax where
    piv: "running_max ar B0 i (N - i) = (m, imax)" and nd: "\<not> flt ar m Tol"
    and im: "i \<le> imax" "imax < N"
    and el: "eliminate ar N i (swap_mat B0 i imax) = Some B"
    by metis
  from laws have tr: "\<forall>a b c. fgt ar a b \<longrightarrow> fgt ar b c \<longrightarrow> fgt ar a c"
    unfolding degeneracy_laws_def by blast
  from nd tol have "m \<noteq> lit0 ar" by blast
  with running_max_positive [OF tr, of B0 i "N - i"] piv
  have pos: "fgt ar (fabs ar (B0 ! imax ! i)) (lit0 ar)" by auto
  from laws inv(1) iN(1) pos im el Suc.IH [OF iN(2) prev]
  show ?case by (rule doomed_pass)
qed

lemma not_doomed_at_end: "\<not> doomed Z B N N"
  by (auto simp: doomed_def zero_row_def twin_rows_def)

lemma LUPDecompose_doomed:
  assumes laws: "degeneracy_laws ar Z" and tol: "flt ar (lit0 ar) Tol"
    and sq: "square A N" and N: "N + 1 < 2 ^ 32" and P: "N < length P"
    and doom: "doomed Z A N 0"
  shows "\<exists>A' P'. LUPDecompose ar A N Tol P = Some (0, A', P')"
proof -
  define P0 where "P0 = [0..<N + 1] @ drop (N + 1) P"
  have len: "N < length P0" using P by (simp add: P0_def)
  have Pr: "\<forall>k<N. P0 ! k < N" by (simp add: P0_def nth_append)
  from LUPDecompose_run [OF sq N P, of ar Tol, folded P0_def] obtain code A' P' where
    run: "LUPDecompose ar A N Tol P = Some (code, A', P')"
    and code: "if \<exists>i<N. degenerate_at ar N Tol A P0 i then code = 0
               else code = 1 \<and> state_at ar N Tol A P0 N = Some (A', P')"
    by blast
  have "code = 0"
  proof (rule ccontr)
    assume "code \<noteq> 0"
    with code have "state_at ar N Tol A P0 N = Some (A', P')" by (simp split: if_splits)
    from doomed_state [OF laws tol sq len Pr doom order_refl this] not_doomed_at_end
    show False by blast
  qed
  with run show ?thesis by blast
qed

lemma real_degeneracy_laws: "degeneracy_laws real_arith (\<lambda>z. z = 0)"
  by (simp add: degeneracy_laws_def real_arith_def)

section \<open>Exact arithmetic on a set of numbers\<close>

lemma exact_onD:
  assumes "exact_on ar dbl S"
  shows "lit0 ar = dbl 0" and "lit1 ar = dbl 1"
    and "\<And>a b. a \<in> S \<Longrightarrow> b \<in> S \<Longrightarrow> a + b \<in> S \<Longrightarrow> fadd ar (dbl a) (dbl b) = dbl (a + b)"
    and "\<And>a b. a \<in> S \<Longrightarrow> b \<in> S \<Longrightarrow> a - b \<in> S \<Longrightarrow> fsub ar (dbl a) (dbl b) = dbl (a - b)"
    and "\<And>a b. a \<in> S \<Longrightarrow> b \<in> S \<Longrightarrow> a * b \<in> S \<Longrightarrow> fmul ar (dbl a) (dbl b) = dbl (a * b)"
    and "\<And>a b. a \<in> S \<Longrightarrow> b \<in> S \<Longrightarrow> b \<noteq> 0 \<Longrightarrow> a / b \<in> S \<Longrightarrow> fdiv ar (dbl a) (dbl b) = dbl (a / b)"
    and "\<And>a b. a \<in> S \<Longrightarrow> b \<in> S \<Longrightarrow> fgt ar (dbl a) (dbl b) \<longleftrightarrow> a > b"
    and "\<And>a. a \<in> S \<Longrightarrow> \<bar>a\<bar> \<in> S \<Longrightarrow> fabs ar (dbl a) = dbl \<bar>a\<bar>"
    and "\<And>a. a \<in> S \<Longrightarrow> flt ar (dbl a) (lit_tol ar) \<longleftrightarrow> a < 1 / 10 ^ 12"
  using assms unfolding exact_on_def by blast+

lemma real_exact_on: "exact_on real_arith (\<lambda>a. a) S"
  by (simp add: exact_on_def real_arith_def)

section \<open>The pivot row in what the decomposition leaves\<close>

lemma find_upt_first:
  assumes "i \<le> k" "k < N" "Q k" "\<And>j. i \<le> j \<Longrightarrow> j < k \<Longrightarrow> \<not> Q j"
  shows "find Q [i..<N] = Some k"
proof -
  have "\<exists>n<length [i..<N]. Q ([i..<N] ! n) \<and> k = [i..<N] ! n \<and> (\<forall>j<n. \<not> Q ([i..<N] ! j))"
  proof (intro exI conjI allI impI)
    show "k - i < length [i..<N]" using assms(1,2) by simp
    show "Q ([i..<N] ! (k - i))" using assms(1,2,3) by simp
    show "k = [i..<N] ! (k - i)" using assms(1,2) by simp
  next
    fix j assume "j < k - i"
    with assms(1,2) have "[i..<N] ! j = i + j" "i \<le> i + j" "i + j < k" by simp_all
    with assms(4) show "\<not> Q ([i..<N] ! j)" by simp
  qed
  then show ?thesis by (simp only: find_Some_iff)
qed

lemma decompose_from_state:
  "a \<le> N \<Longrightarrow> state_at ar N Tol A P a = Some (B, Q) \<Longrightarrow>
     decompose_loop ar N Tol [0..<N] A P = decompose_loop ar N Tol [a..<N] B Q"
proof (induction a arbitrary: B Q)
  case 0
  then show ?case by simp
next
  case (Suc a)
  from Suc.prems(2) obtain B0 Q0 where
    prev: "state_at ar N Tol A P a = Some (B0, Q0)"
    and st: "pivot_stage ar N Tol a B0 Q0 = Some (Eliminated B Q)"
    by (rule state_at_Suc_Some)
  from Suc.prems(1) have aN: "a < N" "a \<le> N" by simp_all
  have "decompose_loop ar N Tol [0..<N] A P = decompose_loop ar N Tol [a..<N] B0 Q0"
    using aN(2) prev by (rule Suc.IH)
  also have "\<dots> = decompose_loop ar N Tol [Suc a..<N] B Q"
    using aN(1) st by (simp add: upt_conv_Cons)
  finally show ?case .
qed

lemma pass_keeps_rows:
  assumes sq: "square B N" and aN: "a < N" and Q: "N < length Q"
    and st: "pivot_stage ar N Tol a B Q = Some (Eliminated B2 Q2)"
  obtains imax where "a \<le> imax" "imax < N" "square B2 N" "length Q2 = length Q"
    and "find_pivot ar B N a = Some (fst (running_max ar B a (N - a)), imax)"
    and "Q2 = swap_perm Q N a imax"
    and "B2 ! a = B ! imax" and "Q2 ! a = Q ! imax"
    and "\<forall>r<a. B2 ! r = B ! r \<and> Q2 ! r = Q ! r"
proof -
  from pivot_stage_Eliminated [OF sq aN Q st] obtain m imax where
    piv: "running_max ar B a (N - a) = (m, imax)" and im: "a \<le> imax" "imax < N"
    and el: "eliminate ar N a (swap_mat B a imax) = Some B2" and sq2: "square B2 N"
    and Q2: "Q2 = swap_perm Q N a imax"
    by metis
  have sqs: "square (swap_mat B a imax) N" using sq aN im(2) by (rule square_swap_mat)
  from eliminate_entries [OF sqs aN, of ar] el have
    ent: "\<And>r c. r < N \<Longrightarrow> c < N \<Longrightarrow>
            B2 ! r ! c = (if a < r then elim_val ar (swap_mat B a imax) a r c
                          else swap_mat B a imax ! r ! c)"
    by auto
  have row: "B2 ! r = swap_mat B a imax ! r" if "r \<le> a" for r
  proof (rule nth_equalityI)
    from that aN have rN: "r < N" by simp
    show "length (B2 ! r) = length (swap_mat B a imax ! r)"
      using square_row [OF sq2 rN] square_row [OF sqs rN] by simp
    fix c assume "c < length (B2 ! r)"
    then have "c < N" using square_row [OF sq2 rN] by simp
    with ent [OF rN this] that show "B2 ! r ! c = swap_mat B a imax ! r ! c" by simp
  qed
  have fp: "find_pivot ar B N a = Some (fst (running_max ar B a (N - a)), imax)"
    using find_pivot_running_max [OF sq, of a ar] aN piv by simp
  have r1: "B2 ! a = B ! imax"
    using row [of a] swap_mat_nth [OF sq aN im(2) aN] by simp
  have r2: "Q2 ! a = Q ! imax"
    unfolding Q2 using swap_perm_nth [OF aN im(2) Q aN] by simp
  have r3: "\<forall>r<a. B2 ! r = B ! r \<and> Q2 ! r = Q ! r"
  proof (intro allI impI)
    fix r assume ra: "r < a"
    with aN have rN: "r < N" by simp
    from ra im(1) have ne: "r \<noteq> imax" "r \<noteq> a" by simp_all
    have "B2 ! r = B ! r"
      using row [of r] ra swap_mat_nth [OF sq aN im(2) rN] ne by simp
    moreover have "Q2 ! r = Q ! r"
      unfolding Q2 using swap_perm_nth [OF aN im(2) Q rN] ne by simp
    ultimately show "B2 ! r = B ! r \<and> Q2 ! r = Q ! r" by simp
  qed
  from that [OF im sq2 _ fp Q2 r1 r2 r3] show thesis
    by (simp add: Q2 length_swap_perm)
qed

lemma decompose_keeps_rows:
  "square B N \<Longrightarrow> N < length Q \<Longrightarrow> a \<le> N \<Longrightarrow>
   decompose_loop ar N Tol [a..<N] B Q = Some (code, A', P') \<Longrightarrow>
   \<forall>r<a. A' ! r = B ! r \<and> P' ! r = Q ! r"
proof (induction "N - a" arbitrary: a B Q)
  case 0
  then show ?case by simp
next
  case (Suc n)
  then have aN: "a < N" by simp
  show ?case
  proof (cases "pivot_stage ar N Tol a B Q")
    case None
    with Suc.prems(4) aN show ?thesis by (simp add: upt_conv_Cons)
  next
    case (Some s)
    show ?thesis
    proof (cases s)
      case Degenerate
      with Some Suc.prems(4) aN show ?thesis by (simp add: upt_conv_Cons)
    next
      case (Eliminated B2 Q2)
      with Some have st: "pivot_stage ar N Tol a B Q = Some (Eliminated B2 Q2)" by simp
      from pass_keeps_rows [OF Suc.prems(1) aN Suc.prems(2) st] obtain imax where
        sq2: "square B2 N" and len: "length Q2 = length Q"
        and keep: "\<forall>r<a. B2 ! r = B ! r \<and> Q2 ! r = Q ! r"
        by metis
      have run: "decompose_loop ar N Tol [Suc a..<N] B2 Q2 = Some (code, A', P')"
        using Suc.prems(4) aN st by (simp add: upt_conv_Cons)
      have Q2: "N < length Q2" using len Suc.prems(2) by simp
      have "n = N - Suc a" using Suc.hyps(2) by simp
      from Suc.hyps(1) [OF this sq2 Q2 _ run] aN
      have "\<forall>r<Suc a. A' ! r = B2 ! r \<and> P' ! r = Q2 ! r" by simp
      with keep show ?thesis by simp
    qed
  qed
qed

section \<open>The maximum of a pivot column\<close>

lemma ordered_by_gt:
  "ordered_by ar rv Tol S \<Longrightarrow> a \<in> S \<Longrightarrow> b \<in> S \<Longrightarrow> fgt ar a b \<longleftrightarrow> rv b < rv a"
  by (simp add: ordered_by_def)

lemma ordered_by_lt: "ordered_by ar rv Tol S \<Longrightarrow> a \<in> S \<Longrightarrow> flt ar a Tol \<longleftrightarrow> rv a < rv Tol"
  by (simp add: ordered_by_def)

lemma ordered_by_least: "ordered_by ar rv Tol S \<Longrightarrow> a \<in> S \<Longrightarrow> rv (lit0 ar) \<le> rv a"
  by (simp add: ordered_by_def)

lemma running_max_Max:
  fixes rv :: "'a \<Rightarrow> 'b::linorder"
  assumes ord: "ordered_by ar rv Tol (insert (lit0 ar) (column_abs ar A N i))"
  shows "i + n \<le> N \<Longrightarrow>
     fst (running_max ar A i n) \<in> insert (lit0 ar) (column_abs ar A N i) \<and>
     rv (fst (running_max ar A i n))
       = Max (insert (rv (lit0 ar)) ((\<lambda>k. rv (fabs ar (A ! k ! i))) ` {i..<i + n}))"
proof (induction n)
  case 0
  show ?case by simp
next
  case (Suc n)
  define S where "S = insert (lit0 ar) (column_abs ar A N i)"
  define a where "a k = fabs ar (A ! k ! i)" for k
  define m where "m = fst (running_max ar A i n)"
  define r where "r = i + n"
  define X where "X = insert (rv (lit0 ar)) ((\<lambda>k. rv (a k)) ` {i..<r})"
  from Suc.prems have rN: "i \<le> r" "r < N" "i + n \<le> N" by (simp_all add: r_def)
  from Suc.IH [OF rN(3)] have mS: "m \<in> S" and eq: "rv m = Max X"
    by (simp_all add: m_def S_def X_def a_def r_def)
  have arS: "a r \<in> S" using rN by (auto simp: S_def column_abs_def a_def)
  have cmp: "fgt ar (a r) m \<longleftrightarrow> rv m < rv (a r)"
    using ord [folded S_def] arS mS by (rule ordered_by_gt)
  have split: "{i..<i + Suc n} = insert r {i..<r}" by (auto simp: r_def)
  have fin: "finite X" "X \<noteq> {}" by (simp_all add: X_def)
  have "insert (rv (lit0 ar)) ((\<lambda>k. rv (a k)) ` {i..<i + Suc n}) = insert (rv (a r)) X"
    unfolding split X_def by (simp add: insert_commute)
  then have mx: "Max (insert (rv (lit0 ar)) ((\<lambda>k. rv (a k)) ` {i..<i + Suc n}))
                  = max (rv (a r)) (rv m)"
    using fin by (simp add: eq)
  have step: "fst (running_max ar A i (Suc n)) = (if fgt ar (a r) m then a r else m)"
    by (simp add: a_def m_def r_def Let_def)
  have "fst (running_max ar A i (Suc n)) \<in> S"
    unfolding step using mS arS by simp
  moreover have "rv (fst (running_max ar A i (Suc n))) = max (rv (a r)) (rv m)"
    unfolding step by (auto simp: cmp max_def)
  ultimately show ?case
    using mx by (simp add: S_def a_def)
qed

lemma pivot_max_below:
  fixes rv :: "'a \<Rightarrow> 'b::linorder"
  assumes iN: "i < N"
    and ord: "ordered_by ar rv Tol (insert (lit0 ar) (column_abs ar A N i))"
  shows "flt ar (fst (running_max ar A i (N - i))) Tol \<longleftrightarrow> column_max ar rv A N i < rv Tol"
proof -
  define m where "m = fst (running_max ar A i (N - i))"
  define X where "X = rv ` column_abs ar A N i"
  have len: "i + (N - i) = N" "i + (N - i) \<le> N" using iN by simp_all
  from running_max_Max [OF ord len(2)] have
    mS: "m \<in> insert (lit0 ar) (column_abs ar A N i)"
    and eq: "rv m = Max (insert (rv (lit0 ar)) ((\<lambda>k. rv (fabs ar (A ! k ! i))) ` {i..<N}))"
    unfolding len(1) m_def by blast+
  have img: "(\<lambda>k. rv (fabs ar (A ! k ! i))) ` {i..<N} = X"
    by (simp add: X_def column_abs_def image_image)
  have fin: "finite X" "X \<noteq> {}" using iN by (auto simp: X_def column_abs_def)
  have "Max X \<in> X" using fin by (rule Max_in)
  then obtain c where c: "c \<in> column_abs ar A N i" "Max X = rv c"
    unfolding X_def by (rule imageE)
  from c(1) have "c \<in> insert (lit0 ar) (column_abs ar A N i)" by simp
  with ord have "rv (lit0 ar) \<le> rv c" by (rule ordered_by_least)
  with c(2) have "rv (lit0 ar) \<le> Max X" by simp
  then have "max (rv (lit0 ar)) (Max X) = Max X" by (simp add: max_def)
  moreover have "Max (insert (rv (lit0 ar)) X) = max (rv (lit0 ar)) (Max X)"
    using fin by (rule Max_insert)
  ultimately have "rv m = Max X" unfolding eq img by simp
  moreover have "flt ar m Tol \<longleftrightarrow> rv m < rv Tol"
    using ord mS by (rule ordered_by_lt)
  ultimately show ?thesis
    unfolding m_def column_max_def X_def by simp
qed

lemma degenerate_max_below:
  fixes rv :: "'a \<Rightarrow> 'b::linorder"
  assumes sq: "square A N" and P: "N < length P" and Pr: "\<forall>k<N. P ! k < N" and iN: "i < N"
    and ord: "\<And>Ai Pi. state_at ar N Tol A P i = Some (Ai, Pi) \<Longrightarrow>
                ordered_by ar rv Tol (insert (lit0 ar) (column_abs ar Ai N i))"
  shows "degenerate_at ar N Tol A P i \<longleftrightarrow> max_below_at ar rv N Tol A P i"
proof (cases "state_at ar N Tol A P i")
  case None
  then show ?thesis by (simp add: degenerate_at_def pivot_at_def max_below_at_def)
next
  case (Some s)
  obtain Ai Pi where s: "s = (Ai, Pi)" by (cases s)
  with Some have at: "state_at ar N Tol A P i = Some (Ai, Pi)" by simp
  from iN have iN': "i \<le> N" by simp
  from state_at_invariant [OF sq P Pr iN' at] have sqi: "square Ai N" by simp
  have fp: "find_pivot ar Ai N i = Some (running_max ar Ai i (N - i))"
    using sqi iN' by (rule find_pivot_running_max)
  have "degenerate_at ar N Tol A P i \<longleftrightarrow> flt ar (fst (running_max ar Ai i (N - i))) Tol"
    by (simp add: degenerate_at_def pivot_at_def at fp split_beta)
  also have "\<dots> \<longleftrightarrow> column_max ar rv Ai N i < rv Tol"
    using iN ord [OF at] by (rule pivot_max_below)
  finally show ?thesis by (simp add: max_below_at_def at)
qed

lemma real_ordered_by:
  "ordered_by real_arith (\<lambda>a. a) Tol (insert (lit0 real_arith) (column_abs real_arith A N i))"
  by (simp add: ordered_by_def column_abs_def real_arith_def)

section \<open>Calls and the free store\<close>

lemma acquire_byte_store:
  "acquire byte_store h r = (if bytes r \<le> h then Some (h - bytes r) else None)"
  by (cases r) (simp_all add: acquire_def byte_store_def)

lemma dispose_byte_store: "dispose byte_store h r = h + bytes r"
  by (cases r) (simp_all add: dispose_def byte_store_def)

lemma byte_store_repeat:
  "for_loop [0..<n] (\<lambda>k h. acquire byte_store h r) h
     = (if n * bytes r \<le> h then Some (h - n * bytes r) else None)"
proof (induction n)
  case 0
  show ?case by simp
next
  case (Suc n)
  have "for_loop [0..<Suc n] (\<lambda>k h. acquire byte_store h r) h
          = (case for_loop [0..<n] (\<lambda>k h. acquire byte_store h r) h of
               None \<Rightarrow> None
             | Some h' \<Rightarrow> acquire byte_store h' r)"
    by (simp add: for_loop_append split: option.splits)
  also have "\<dots> = (if Suc n * bytes r \<le> h then Some (h - Suc n * bytes r) else None)"
    unfolding Suc.IH by (auto simp: acquire_byte_store algebra_simps)
  finally show ?case .
qed

lemma acquire_rows_byte_store:
  "acquire_rows byte_store n h = (if n * (8 * n) \<le> h then Some (h - n * (8 * n)) else None)"
  unfolding acquire_rows_def byte_store_repeat by simp

lemma unat_all_ones: "unat (- 1 :: 32 word) = 4294967295"
  by (simp add: unsigned_minus_1_eq_mask mask_eq_exp_minus_1)

lemmas run_store = polyFit_call_def polyFit_storage_def polyFit_granted_def LUPSolve_call_def
  acquire_byte_store dispose_byte_store acquire_rows_byte_store unat_all_ones

lemma LUPSolve_call_cases:
  "LUPSolve_call st h ar x A b N =
     (if acquire st h (Indices ((N + 1) mod 2 ^ 32)) = None then Some Raised
      else map_option Returned (LUPSolve ar x A b N))"
  by (simp add: LUPSolve_call_def split: option.splits)

lemma polyFit_call_granted:
  assumes "polyFit_granted st h (length outPolCoef) d"
  shows "polyFit_call st h ar outPolCoef inX inY d
           = map_option Returned (polyFit ar outPolCoef inX inY d)"
proof -
  from assms obtain h' where
    st: "polyFit_storage st h (length outPolCoef) (unat (d + 1)) (unat (d + 1 + d)) = Some h'"
    and P: "acquire st h' (Indices ((unat (d + 1) + 1) mod 2 ^ 32)) \<noteq> None"
    by (auto simp: polyFit_granted_def Let_def split: option.splits)
  have call: "polyFit_call st h ar outPolCoef inX inY d =
      (case normal_equations ar inX inY d of
         None \<Rightarrow> None
       | Some (XX, XY) \<Rightarrow>
           (case LUPSolve_call st h' ar (resize outPolCoef (unat (d + 1)) (lit0 ar)) XX XY
                   (unat (d + 1)) of
              None \<Rightarrow> None
            | Some Raised \<Rightarrow> Some Raised
            | Some (Returned (errCode, coef, XX')) \<Rightarrow> Some (Returned (errCode, coef))))"
    unfolding polyFit_call_def Let_def st by simp
  show ?thesis
  proof (cases "normal_equations ar inX inY d")
    case None
    then show ?thesis by (simp add: call polyFit_solve)
  next
    case (Some r)
    obtain XX XY where r: "r = (XX, XY)" by (cases r)
    show ?thesis
    proof (cases "LUPSolve ar (resize outPolCoef (unat (d + 1)) (lit0 ar)) XX XY (unat (d + 1))")
      case None
      with \<open>normal_equations ar inX inY d = Some r\<close> r P show ?thesis
        by (simp add: call polyFit_solve LUPSolve_call_cases)
    next
      case (Some t)
      obtain e c A' where t: "t = (e, c, A')" by (cases t)
      with Some \<open>normal_equations ar inX inY d = Some r\<close> r P show ?thesis
        by (simp add: call polyFit_solve LUPSolve_call_cases)
    qed
  qed
qed

lemma polyFit_call_refused:
  assumes "\<not> polyFit_granted st h (length outPolCoef) d"
    and "normal_equations ar inX inY d \<noteq> None"
  shows "polyFit_call st h ar outPolCoef inX inY d = Some Raised"
proof (cases "polyFit_storage st h (length outPolCoef) (unat (d + 1)) (unat (d + 1 + d))")
  case None
  then show ?thesis by (simp add: polyFit_call_def Let_def)
next
  case (Some h')
  with assms(1) have "acquire st h' (Indices ((unat (d + 1) + 1) mod 2 ^ 32)) = None"
    by (simp add: polyFit_granted_def Let_def)
  have "polyFit_call st h ar outPolCoef inX inY d =
      (case normal_equations ar inX inY d of
         None \<Rightarrow> None
       | Some (XX, XY) \<Rightarrow>
           (case LUPSolve_call st h' ar (resize outPolCoef (unat (d + 1)) (lit0 ar)) XX XY
                   (unat (d + 1)) of
              None \<Rightarrow> None
            | Some Raised \<Rightarrow> Some Raised
            | Some (Returned (errCode, coef, XX')) \<Rightarrow> Some (Returned (errCode, coef))))"
    unfolding polyFit_call_def Let_def Some by simp
  with assms(2) \<open>acquire st h' (Indices ((unat (d + 1) + 1) mod 2 ^ 32)) = None\<close>
  show ?thesis
    by (auto simp: LUPSolve_call_cases)
qed

lemma polyFit_call_Returned:
  assumes "polyFit_call st h ar outPolCoef inX inY d = Some (Returned (e, c))"
  shows "polyFit ar outPolCoef inX inY d = Some (e, c)"
proof (cases "polyFit_granted st h (length outPolCoef) d")
  case True
  from assms show ?thesis
    unfolding polyFit_call_granted [OF True] by auto
next
  case False
  show ?thesis
  proof (cases "normal_equations ar inX inY d")
    case None
    with assms show ?thesis
      unfolding polyFit_call_def Let_def by (simp split: option.splits)
  next
    case (Some r)
    then have "normal_equations ar inX inY d \<noteq> None" by simp
    from polyFit_call_refused [OF False this] assms show ?thesis by simp
  qed
qed
section \<open>The properties\<close>

text \<open>
  C1, as amended. For every \<open>N\<close> by \<open>N\<close> matrix (\<open>N\<close> an \<^verbatim>\<open>unsigned int\<close> below
  \<open>2 ^ 32 - 1\<close>), every right-hand side of length \<open>N\<close> and every \<open>x\<close> of at least \<open>N\<close>
  entries, in an arithmetic whose comparisons order the absolute values that the pivot
  searches meet (for doubles: no NaN among them), LUPSolve returns, and its error code
  is 1 exactly when some pass \<open>i\<close> that the decomposition, run with the tolerance
  \<^verbatim>\<open>1e-12\<close>, reaches finds the maximum absolute value of column \<open>i\<close> over the rows
  \<open>i..N-1\<close> below the tolerance; it is 0 otherwise. The call raises \<^verbatim>\<open>std::bad_alloc\<close>
  instead exactly when the free store refuses the storage of \<^verbatim>\<open>P\<close>.
  Whenever polyFit returns, it returns the error code and the vector of its LUPSolve
  call. For samples of equal length and a degree below \<open>2 ^ 31\<close> the call has a defined
  result: the error code, 0 or 1, when the free store grants its requests, and
  \<^verbatim>\<open>std::bad_alloc\<close> when it refuses one. A call whose requests are granted is the
  function polyFit, for every input.
\<close>

theorem solve_error_code:
  fixes rv :: "'a \<Rightarrow> 'b::linorder" and st :: "'h store"
  shows
  "(square A N \<and> N + 1 < 2 ^ 32 \<and> length b = N \<and> N \<le> length x \<and>
    ordered_passes ar rv N (lit_tol ar) A [0..<N + 1] \<longrightarrow>
      (\<exists>x' A'. LUPSolve ar x A b N
          = Some (if \<exists>i<N. max_below_at ar rv N (lit_tol ar) A [0..<N + 1] i then 1 else 0, x', A') \<and>
         LUPSolve_call st h ar x A b N
          = (if acquire st h (Indices (N + 1)) = None then Some Raised
             else Some (Returned (if \<exists>i<N. max_below_at ar rv N (lit_tol ar) A [0..<N + 1] i
                                  then 1 else 0, x', A')))))
   \<and> (\<forall>e c. polyFit_call st h ar outPolCoef inX inY d = Some (Returned (e, c)) \<longrightarrow>
        (\<exists>XX XY A'. normal_equations ar inX inY d = Some (XX, XY) \<and>
           LUPSolve ar (resize outPolCoef (unat (d + 1)) (lit0 ar)) XX XY (unat (d + 1))
             = Some (e, c, A')))
   \<and> (length inX = length inY \<and> unat d < 2 ^ 31 \<longrightarrow>
        (\<exists>XX XY e c A'. normal_equations ar inX inY d = Some (XX, XY) \<and>
           LUPSolve ar (resize outPolCoef (unat d + 1) (lit0 ar)) XX XY (unat d + 1)
             = Some (e, c, A') \<and>
           (e = 0 \<or> e = 1) \<and>
           polyFit_call st h ar outPolCoef inX inY d
             = (if polyFit_granted st h (length outPolCoef) d then Some (Returned (e, c))
                else Some Raised)))
   \<and> (polyFit_granted st h (length outPolCoef) d \<longrightarrow>
        polyFit_call st h ar outPolCoef inX inY d
          = map_option Returned (polyFit ar outPolCoef inX inY d))"
proof (intro conjI impI allI)
  assume h: "square A N \<and> N + 1 < 2 ^ 32 \<and> length b = N \<and> N \<le> length x \<and>
    ordered_passes ar rv N (lit_tol ar) A [0..<N + 1]"
  then have sq: "square A N" and N: "N + 1 < 2 ^ 32" and b: "length b = N"
    and x: "N \<le> length x" by simp_all
  from h have ord: "\<And>i Ai Pi. i < N \<Longrightarrow>
      state_at ar N (lit_tol ar) A [0..<N + 1] i = Some (Ai, Pi) \<Longrightarrow>
      ordered_by ar rv (lit_tol ar) (insert (lit0 ar) (column_abs ar Ai N i))"
    unfolding ordered_passes_def by blast
  have P: "N < length [0..<N + 1]" by simp
  have Pr: "\<forall>k<N. [0..<N + 1] ! k < N" by (simp add: nth_append)
  have iff: "degenerate_at ar N (lit_tol ar) A [0..<N + 1] i
               \<longleftrightarrow> max_below_at ar rv N (lit_tol ar) A [0..<N + 1] i" if "i < N" for i
    using sq P Pr that ord [OF that] by (rule degenerate_max_below)
  then have ex: "(\<exists>i<N. degenerate_at ar N (lit_tol ar) A [0..<N + 1] i)
               \<longleftrightarrow> (\<exists>i<N. max_below_at ar rv N (lit_tol ar) A [0..<N + 1] i)"
    by blast
  from LUPSolve_run [OF sq N b x, of ar] obtain x' A' where
    run: "LUPSolve ar x A b N
      = Some (if \<exists>i<N. max_below_at ar rv N (lit_tol ar) A [0..<N + 1] i then 1 else 0, x', A')"
    unfolding ex by blast
  have md: "(N + 1) mod 2 ^ 32 = N + 1" using N by simp
  have "LUPSolve_call st h ar x A b N
          = (if acquire st h (Indices (N + 1)) = None then Some Raised
             else Some (Returned (if \<exists>i<N. max_below_at ar rv N (lit_tol ar) A [0..<N + 1] i
                                  then 1 else 0, x', A')))"
    unfolding LUPSolve_call_cases md run by simp
  with run show "\<exists>x' A'. LUPSolve ar x A b N
          = Some (if \<exists>i<N. max_below_at ar rv N (lit_tol ar) A [0..<N + 1] i then 1 else 0, x', A') \<and>
         LUPSolve_call st h ar x A b N
          = (if acquire st h (Indices (N + 1)) = None then Some Raised
             else Some (Returned (if \<exists>i<N. max_below_at ar rv N (lit_tol ar) A [0..<N + 1] i
                                  then 1 else 0, x', A')))"
    by blast
next
  fix e c
  assume "polyFit_call st h ar outPolCoef inX inY d = Some (Returned (e, c))"
  then have "polyFit ar outPolCoef inX inY d = Some (e, c)" by (rule polyFit_call_Returned)
  then show "\<exists>XX XY A'. normal_equations ar inX inY d = Some (XX, XY) \<and>
           LUPSolve ar (resize outPolCoef (unat (d + 1)) (lit0 ar)) XX XY (unat (d + 1))
             = Some (e, c, A')"
    unfolding polyFit_solve by (auto split: option.splits prod.splits)
next
  assume "length inX = length inY \<and> unat d < 2 ^ 31"
  then have eq: "length inX = length inY" and d: "unat d < 2 ^ 31" by simp_all
  define XX where "XX = normal_matrix ar (take (length inX mod 2 ^ 32) inX) (unat d)"
  define XY where
    "XY = normal_vector ar (take (length inX mod 2 ^ 32) inX) (take (length inX mod 2 ^ 32) inY) (unat d)"
  define e :: int where
    "e = (if \<exists>i<unat d + 1. degenerate_at ar (unat d + 1) (lit_tol ar) XX [0..<unat d + 1 + 1] i
          then 1 else 0)"
  have ne: "normal_equations ar inX inY d = Some (XX, XY)"
    unfolding XX_def XY_def using eq d by (rule normal_equations_run)
  from polyFit_run [OF eq d, of ar outPolCoef, folded XX_def XY_def, folded e_def]
  obtain c A' where
    sol: "LUPSolve ar (resize outPolCoef (unat d + 1) (lit0 ar)) XX XY (unat d + 1) = Some (e, c, A')"
    and fit: "polyFit ar outPolCoef inX inY d = Some (e, c)"
    by blast
  have e: "e = 0 \<or> e = 1" by (simp add: e_def)
  have "polyFit_call st h ar outPolCoef inX inY d
          = (if polyFit_granted st h (length outPolCoef) d then Some (Returned (e, c))
             else Some Raised)"
  proof (cases "polyFit_granted st h (length outPolCoef) d")
    case True
    then show ?thesis by (simp add: polyFit_call_granted fit)
  next
    case False
    from ne have "normal_equations ar inX inY d \<noteq> None" by simp
    with False show ?thesis by (simp add: polyFit_call_refused)
  qed
  with ne sol e show "\<exists>XX XY e c A'. normal_equations ar inX inY d = Some (XX, XY) \<and>
           LUPSolve ar (resize outPolCoef (unat d + 1) (lit0 ar)) XX XY (unat d + 1)
             = Some (e, c, A') \<and>
           (e = 0 \<or> e = 1) \<and>
           polyFit_call st h ar outPolCoef inX inY d
             = (if polyFit_granted st h (length outPolCoef) d then Some (Returned (e, c))
                else Some Raised)"
    by blast
next
  assume "polyFit_granted st h (length outPolCoef) d"
  then show "polyFit_call st h ar outPolCoef inX inY d
          = map_option Returned (polyFit ar outPolCoef inX inY d)"
    by (rule polyFit_call_granted)
qed

theorem solve_error_code_witness:
  "square [[1, 2], [1, 2 :: real]] 2 \<and> (2::nat) + 1 < 2 ^ 32 \<and> length [3, 4 :: real] = 2 \<and>
   2 \<le> length [7, 7 :: real] \<and>
   ordered_passes real_arith (\<lambda>a. a) 2 (lit_tol real_arith) [[1, 2], [1, 2]] [0..<2 + 1] \<and>
   max_below_at real_arith (\<lambda>a. a) 2 (lit_tol real_arith) [[1, 2], [1, 2]] [0..<2 + 1] 1 \<and>
   LUPSolve real_arith [7, 7] [[1, 2], [1, 2]] [3, 4] 2 = Some (1, [7, 7], [[1, 2], [1, 0]]) \<and>
   LUPSolve_call byte_store 1000 real_arith [7, 7] [[1, 2], [1, 2]] [3, 4] 2
     = Some (Returned (1, [7, 7], [[1, 2], [1, 0]])) \<and>
   LUPSolve_call byte_store 11 real_arith [7, 7] [[1, 2], [1, 2]] [3, 4] 2 = Some Raised \<and>
   \<not> (\<exists>i<2. max_below_at real_arith (\<lambda>a. a) 2 (lit_tol real_arith) [[2, 1], [1, 3]] [0..<2 + 1] i) \<and>
   LUPSolve_call byte_store 100 real_arith [0, 0] [[2, 1], [1, 3]] [5, 10] 2
     = Some (Returned (0, [1, 3], [[2, 1], [1 / 2, 5 / 2]])) \<and>
   length [1, 1, 1 :: real] = length [1, 2, 3 :: real] \<and> unat (1 :: 32 word) < 2 ^ 31 \<and>
   polyFit_granted byte_store 1000 (length ([] :: real list)) 1 \<and>
   polyFit_call byte_store 1000 real_arith [] [1, 1, 1] [1, 2, 3] 1 = Some (Returned (1, [0, 0])) \<and>
   (\<exists>XX XY A'. normal_equations real_arith [1, 1, 1] [1, 2, 3] 1 = Some (XX, XY) \<and>
      LUPSolve real_arith (resize [] (unat (1 + 1 :: 32 word)) (lit0 real_arith)) XX XY
        (unat (1 + 1 :: 32 word)) = Some (1, [0, 0], A')) \<and>
   \<not> polyFit_granted byte_store 100 (length ([] :: real list)) 1 \<and>
   polyFit_call byte_store 100 real_arith [] [1, 1, 1] [1, 2, 3] 1 = Some Raised"
proof -
  define tol where "tol = lit_tol real_arith"
  define S :: "real matrix" where "S = [[1, 2], [1, 2]]"
  define R :: "real matrix" where "R = [[2, 1], [1, 3]]"
  have hS: "square S 2 \<and> (2::nat) + 1 < 2 ^ 32 \<and> length [3, 4 :: real] = 2 \<and>
            2 \<le> length [7, 7 :: real] \<and>
            ordered_passes real_arith (\<lambda>a. a) 2 tol S [0..<2 + 1]"
    by (simp add: square_def S_def ordered_passes_def real_ordered_by)
  have hR: "square R 2 \<and> (2::nat) + 1 < 2 ^ 32 \<and> length [5, 10 :: real] = 2 \<and>
            2 \<le> length [0, 0 :: real] \<and>
            ordered_passes real_arith (\<lambda>a. a) 2 tol R [0..<2 + 1]"
    by (simp add: square_def R_def ordered_passes_def real_ordered_by)
  have mS: "max_below_at real_arith (\<lambda>a. a) 2 tol S [0..<2 + 1] 1"
    by (simp add: max_below_at_def column_max_def column_abs_def run_model S_def tol_def)
  have rows: "{0..<2::nat} = {0, 1}" by auto
  have m0: "\<not> max_below_at real_arith (\<lambda>a. a) 2 tol R [0..<2 + 1] 0"
    by (simp add: max_below_at_def column_max_def column_abs_def run_model R_def tol_def rows)
  have m1: "\<not> max_below_at real_arith (\<lambda>a. a) 2 tol R [0..<2 + 1] 1"
    by (simp add: max_below_at_def column_max_def column_abs_def run_model R_def tol_def)
  have mR: "\<not> (\<exists>i<2. max_below_at real_arith (\<lambda>a. a) 2 tol R [0..<2 + 1] i)"
  proof
    assume "\<exists>i<2. max_below_at real_arith (\<lambda>a. a) 2 tol R [0..<2 + 1] i"
    then obtain i where i: "i < 2" "max_below_at real_arith (\<lambda>a. a) 2 tol R [0..<2 + 1] i"
      by blast
    from i(1) have "i = 0 \<or> i = 1" by auto
    with i(2) m0 m1 show False by auto
  qed
  have exS: "\<exists>i<2. max_below_at real_arith (\<lambda>a. a) 2 tol S [0..<2 + 1] i"
    using mS by (intro exI [of _ 1]) simp
  have g1: "acquire byte_store 1000 (Indices (2 + 1)) \<noteq> None"
    and g2: "acquire byte_store 11 (Indices (2 + 1)) = None"
    and g3: "acquire byte_store 100 (Indices (2 + 1)) \<noteq> None"
    by (simp_all add: acquire_byte_store)
  have e1: "length [1, 1, 1 :: real] = length [1, 2, 3 :: real] \<and> unat (1 :: 32 word) < 2 ^ 31"
    by simp
  have gr: "polyFit_granted byte_store 1000 (length ([] :: real list)) 1"
    and ngr: "\<not> polyFit_granted byte_store 100 (length ([] :: real list)) 1"
    by (simp_all add: run_store)
  have call: "polyFit_call byte_store 1000 real_arith [] [1, 1, 1] [1, 2, 3] 1
                = Some (Returned (1, [0, 0]))"
    by (simp add: run_store run_model)
  note tS = solve_error_code [of S 2 "[3, 4]" "[7, 7]" real_arith "\<lambda>a. a" byte_store 1000
      "[]" "[1, 1, 1]" "[1, 2, 3]" 1, folded tol_def]
  note tS' = solve_error_code [of S 2 "[3, 4]" "[7, 7]" real_arith "\<lambda>a. a" byte_store 11
      "[]" "[1, 1, 1]" "[1, 2, 3]" 1, folded tol_def]
  note tR = solve_error_code [of R 2 "[5, 10]" "[0, 0]" real_arith "\<lambda>a. a" byte_store 100
      "[]" "[1, 1, 1]" "[1, 2, 3]" 1, folded tol_def]
  from tS [THEN conjunct1] hS
  have "\<exists>x' A'. LUPSolve real_arith [7, 7] S [3, 4] 2
          = Some (if \<exists>i<2. max_below_at real_arith (\<lambda>a. a) 2 tol S [0..<2 + 1] i then 1 else 0, x', A') \<and>
         LUPSolve_call byte_store 1000 real_arith [7, 7] S [3, 4] 2
          = (if acquire byte_store 1000 (Indices (2 + 1)) = None then Some Raised
             else Some (Returned (if \<exists>i<2. max_below_at real_arith (\<lambda>a. a) 2 tol S [0..<2 + 1] i
                                  then 1 else 0, x', A')))"
    by (rule mp)
  then obtain x' A' where
    s1: "LUPSolve real_arith [7, 7] S [3, 4] 2 = Some (1, x', A')"
        "LUPSolve_call byte_store 1000 real_arith [7, 7] S [3, 4] 2 = Some (Returned (1, x', A'))"
    unfolding if_P [OF exS] if_not_P [OF g1] by blast
  have vS: "LUPSolve real_arith [7, 7] S [3, 4] 2 = Some (1, [7, 7], [[1, 2], [1, 0]])"
    by (simp add: run_model S_def)
  with s1 have c1: "LUPSolve_call byte_store 1000 real_arith [7, 7] S [3, 4] 2
                      = Some (Returned (1, [7, 7], [[1, 2], [1, 0]]))"
    by simp
  from tS' [THEN conjunct1] hS
  have "\<exists>x' A'. LUPSolve real_arith [7, 7] S [3, 4] 2
          = Some (if \<exists>i<2. max_below_at real_arith (\<lambda>a. a) 2 tol S [0..<2 + 1] i then 1 else 0, x', A') \<and>
         LUPSolve_call byte_store 11 real_arith [7, 7] S [3, 4] 2
          = (if acquire byte_store 11 (Indices (2 + 1)) = None then Some Raised
             else Some (Returned (if \<exists>i<2. max_below_at real_arith (\<lambda>a. a) 2 tol S [0..<2 + 1] i
                                  then 1 else 0, x', A')))"
    by (rule mp)
  then have c2: "LUPSolve_call byte_store 11 real_arith [7, 7] S [3, 4] 2 = Some Raised"
    unfolding if_P [OF g2] by blast
  from tR [THEN conjunct1] hR
  have "\<exists>x' A'. LUPSolve real_arith [0, 0] R [5, 10] 2
          = Some (if \<exists>i<2. max_below_at real_arith (\<lambda>a. a) 2 tol R [0..<2 + 1] i then 1 else 0, x', A') \<and>
         LUPSolve_call byte_store 100 real_arith [0, 0] R [5, 10] 2
          = (if acquire byte_store 100 (Indices (2 + 1)) = None then Some Raised
             else Some (Returned (if \<exists>i<2. max_below_at real_arith (\<lambda>a. a) 2 tol R [0..<2 + 1] i
                                  then 1 else 0, x', A')))"
    by (rule mp)
  then obtain x'' A'' where
    s2: "LUPSolve real_arith [0, 0] R [5, 10] 2 = Some (0, x'', A'')"
        "LUPSolve_call byte_store 100 real_arith [0, 0] R [5, 10] 2 = Some (Returned (0, x'', A''))"
    unfolding if_not_P [OF mR] if_not_P [OF g3] by blast
  have vR: "LUPSolve real_arith [0, 0] R [5, 10] 2 = Some (0, [1, 3], [[2, 1], [1 / 2, 5 / 2]])"
    by (simp add: run_model R_def)
  with s2 have c6: "LUPSolve_call byte_store 100 real_arith [0, 0] R [5, 10] 2
                      = Some (Returned (0, [1, 3], [[2, 1], [1 / 2, 5 / 2]]))"
    by simp
  from tS [THEN conjunct2, THEN conjunct1, rule_format, OF call]
  have c3: "\<exists>XX XY A'. normal_equations real_arith [1, 1, 1] [1, 2, 3] 1 = Some (XX, XY) \<and>
      LUPSolve real_arith (resize [] (unat (1 + 1 :: 32 word)) (lit0 real_arith)) XX XY
        (unat (1 + 1 :: 32 word)) = Some (1, [0, 0], A')" .
  from tR [THEN conjunct2, THEN conjunct2, THEN conjunct1, rule_format, OF e1]
  have c4: "polyFit_call byte_store 100 real_arith [] [1, 1, 1] [1, 2, 3] 1 = Some Raised"
    unfolding if_not_P [OF ngr] by blast
  from hS mS vS c1 c2 mR c6 e1 gr call c3 ngr c4 show ?thesis
    unfolding S_def R_def tol_def by simp
qed

text \<open>
  C1 as stated, with no exception ever raised, fails. At \<open>d = 2 ^ 32 - 1\<close>, where
  \<^verbatim>\<open>nCoef\<close> wraps to 0 and \<^verbatim>\<open>xxSum\<close> is the only vector with elements, a free
  store of 16 GiB refuses the \<open>2 ^ 32 - 1\<close> doubles of \<^verbatim>\<open>xxSum\<close>. At \<open>d = 2 ^ 31 - 1\<close>
  the rows of \<^verbatim>\<open>XX\<close> take \<open>2 ^ 62\<close> doubles, which a free store of \<open>2 ^ 64\<close> bytes
  does not hold. At \<open>d = 2 ^ 31\<close>, were the storage granted, \<^verbatim>\<open>nPower\<close> would wrap to
  1 and \<^verbatim>\<open>xxSum[1]\<close> be read out of range: the call has no defined result, and no
  error code of a LUPSolve call is returned.
\<close>

theorem polyFit_raises_counterexample:
  "polyFit_call byte_store (2 ^ 34) real_arith [] [] [] (- 1) = Some Raised \<and>
   polyFit_call byte_store (2 ^ 64) real_arith [] [] [] (2 ^ 31 - 1) = Some Raised \<and>
   polyFit real_arith [] [] [] (2 ^ 31) = None"
  by (simp add: run_store polyFit_def normal_equations_def assemble_entry_def rd_def wr_def
        rd2_def wr2_def for_loop_upt_step)

text \<open>
  C2, as amended. For samples of equal length and a degree \<open>d\<close> below \<open>2 ^ 31\<close> (so that
  \<^verbatim>\<open>nCoef = d + 1\<close> and \<^verbatim>\<open>nPower = 2 * d + 1\<close> do not wrap), polyFit builds the
  \<open>d + 1\<close> by \<open>d + 1\<close> matrix with \<open>XX[i][j] = XX[j][i]\<close> the sum over the samples of the
  running power \<open>i + j\<close> of \<open>x\<close>, and the vector with \<open>XY[j]\<close> the sum of \<open>y\<close> times the
  running power \<open>j\<close> of \<open>x\<close>, each sum accumulated from 0 in the order of the samples, and
  calls LUPSolve on them with dimension \<open>d + 1\<close>. The samples summed are the first
  \<^verbatim>\<open>nX\<close>, the length as an \<^verbatim>\<open>unsigned int\<close>: all of them when there are fewer than
  \<open>2 ^ 32\<close>. The statement holds in every arithmetic.
\<close>

theorem polyFit_builds_normal_equations:
  fixes ar :: "'a arith" and inX inY outPolCoef :: "'a list" and d :: "32 word"
  assumes eq: "length inX = length inY" and d: "unat d < 2 ^ 31"
  shows "\<exists>XX XY. normal_equations ar inX inY d = Some (XX, XY) \<and>
           square XX (unat d + 1) \<and> length XY = unat d + 1 \<and>
           (\<forall>i\<le>unat d. \<forall>j\<le>unat d.
              XX ! i ! j = power_sum ar (take (length inX mod 2 ^ 32) inX) (i + j) \<and>
              XX ! i ! j = XX ! j ! i) \<and>
           (\<forall>j\<le>unat d. XY ! j = moment_sum ar (take (length inX mod 2 ^ 32) inX)
                                      (take (length inX mod 2 ^ 32) inY) j) \<and>
           polyFit ar outPolCoef inX inY d
             = (case LUPSolve ar (resize outPolCoef (unat d + 1) (lit0 ar)) XX XY (unat d + 1) of
                  None \<Rightarrow> None
                | Some (e, c, A') \<Rightarrow> Some (e, c))"
proof -
  define xs where "xs = take (length inX mod 2 ^ 32) inX"
  define ys where "ys = take (length inX mod 2 ^ 32) inY"
  define XX where "XX = normal_matrix ar xs (unat d)"
  define XY where "XY = normal_vector ar xs ys (unat d)"
  have ne: "normal_equations ar inX inY d = Some (XX, XY)"
    unfolding XX_def XY_def xs_def ys_def using eq d by (rule normal_equations_run)
  have sq: "square XX (unat d + 1)" unfolding XX_def by (rule square_normal_matrix)
  have len: "length XY = unat d + 1" unfolding XY_def by (rule length_normal_vector)
  have ent: "XX ! i ! j = power_sum ar xs (i + j) \<and> XX ! i ! j = XX ! j ! i"
    if "i \<le> unat d" "j \<le> unat d" for i j
    using that by (simp add: XX_def normal_matrix_nth add.commute)
  have vec: "XY ! j = moment_sum ar xs ys j" if "j \<le> unat d" for j
    using that unfolding XY_def by (rule normal_vector_nth)
  have fit: "polyFit ar outPolCoef inX inY d
             = (case LUPSolve ar (resize outPolCoef (unat d + 1) (lit0 ar)) XX XY (unat d + 1) of
                  None \<Rightarrow> None
                | Some (e, c, A') \<Rightarrow> Some (e, c))"
    unfolding polyFit_solve ne degree_sizes(1) [OF d] by simp
  from ne sq len ent vec fit show ?thesis
    unfolding xs_def ys_def by blast
qed

theorem polyFit_builds_normal_equations_witness:
  "length [1, 2 :: real] = length [3, 4 :: real] \<and> unat (1 :: 32 word) < 2 ^ 31 \<and>
   normal_equations real_arith [1, 2] [3, 4] 1 = Some ([[2, 3], [3, 5]], [7, 11]) \<and>
   power_sum real_arith (take (length [1, 2 :: real] mod 2 ^ 32) [1, 2]) (0 + 1) = 3"
proof -
  have h1: "length [1, 2 :: real] = length [3, 4 :: real]" by simp
  have h2: "unat (1 :: 32 word) < 2 ^ 31" by simp
  have ne: "normal_equations real_arith [1, 2] [3, 4] 1 = Some ([[2, 3], [3, 5]], [7, 11])"
    by (simp add: run_model)
  from polyFit_builds_normal_equations [OF h1 h2, of real_arith "[]"] obtain XX XY where
    a: "normal_equations real_arith [1, 2] [3, 4] 1 = Some (XX, XY)"
    and b: "\<forall>i\<le>unat (1 :: 32 word). \<forall>j\<le>unat (1 :: 32 word).
              XX ! i ! j = power_sum real_arith (take (length [1, 2 :: real] mod 2 ^ 32) [1, 2]) (i + j) \<and>
              XX ! i ! j = XX ! j ! i"
    by blast
  from a ne have XX: "XX = [[2, 3], [3, 5]]" by simp
  from b [rule_format, of 0 1]
  have "XX ! 0 ! 1 = power_sum real_arith (take (length [1, 2 :: real] mod 2 ^ 32) [1, 2]) (0 + 1)"
    by simp
  then have "power_sum real_arith (take (length [1, 2 :: real] mod 2 ^ 32) [1, 2]) (0 + 1) = 3"
    by (simp add: XX)
  with h1 h2 ne show ?thesis by simp
qed

text \<open>
  C2 as stated, for every degree, fails at \<open>d = 2 ^ 32 - 1\<close>: \<^verbatim>\<open>nCoef\<close> wraps to 0 and
  the matrix has no rows. It fails at \<open>d = 2 ^ 31\<close> too: \<^verbatim>\<open>nPower\<close> wraps to 1 there,
  and \<^verbatim>\<open>xxSum[1]\<close> is read out of range. No arithmetic operation is run on these
  inputs.
\<close>

theorem polyFit_normal_matrix_counterexample:
  "normal_equations real_arith [] [] (- 1) = Some ([], []) \<and>
   \<not> square ([] :: real matrix) (unat (- 1 :: 32 word) + 1) \<and>
   normal_equations real_arith [] [] (2 ^ 31) = None"
  by (simp add: normal_equations_def square_def assemble_entry_def rd_def wr_def rd2_def wr2_def
        for_loop_upt_step)

text \<open>
  C3. On \<open>A = [[2,1],[1,3]]\<close>, \<open>b = [5,10]\<close>, \<open>N = 2\<close>, LUPSolve returns error code 0
  and leaves the solution \<open>[1, 3]\<close> in \<open>x\<close>, whatever the two entries of \<open>x\<close> were, in
  every arithmetic that is exact on the nine numbers the run meets. IEEE 754 doubles
  are: each of the nine is a binary fraction of a few bits, and an IEEE operation whose
  exact result is representable returns it.
\<close>

theorem LUPSolve_scenario:
  assumes ex: "exact_on ar dbl {0, 1 / 2, 1, 2, 5 / 2, 3, 5, 15 / 2, 10}"
  shows "LUPSolve ar [x0, x1] [[dbl 2, dbl 1], [dbl 1, dbl 3]] [dbl 5, dbl 10] 2
           = Some (0, [dbl 1, dbl 3], [[dbl 2, dbl 1], [dbl (1 / 2), dbl (5 / 2)]])"
  by (simp add: run_loops exact_onD [OF ex])

theorem LUPSolve_scenario_witness:
  "exact_on real_arith (\<lambda>a. a) {0, 1 / 2, 1, 2, 5 / 2, 3, 5, 15 / 2, 10} \<and>
   LUPSolve real_arith [7, 8] [[2, 1], [1, 3]] [5, 10] 2
     = Some (0, [1, 3], [[2, 1], [1 / 2, 5 / 2]])"
  using LUPSolve_scenario [OF real_exact_on, of 7 8] real_exact_on by simp

text \<open>
  C4. LUPDecompose first sets \<open>P[i] = i\<close> for every \<open>i\<close> up to and including \<open>N\<close>, then
  runs the outer loop on that vector. When it returns 1, \<open>P[N]\<close> is \<open>N\<close> plus the number of
  passes that exchanged rows, in \<^verbatim>\<open>unsigned int\<close> arithmetic; for a matrix of fewer than
  \<open>2 ^ 31\<close> rows nothing wraps and \<open>P[N] - N\<close> is that number. The statement holds in
  every arithmetic.
\<close>

theorem decompose_counts_exchanges:
  assumes sq: "square A N" and N: "N + 1 < 2 ^ 32" and P: "N < length P"
  shows "\<exists>P0. init_perm N P = Some P0 \<and> (\<forall>i\<le>N. P0 ! i = i) \<and>
           LUPDecompose ar A N Tol P = decompose_loop ar N Tol [0..<N] A P0 \<and>
           (\<forall>A' P'. LUPDecompose ar A N Tol P = Some (1, A', P') \<longrightarrow>
              P' ! N = (N + exchange_count ar N Tol A P0 N) mod 2 ^ 32 \<and>
              (N < 2 ^ 31 \<longrightarrow> P' ! N - N = exchange_count ar N Tol A P0 N))"
proof -
  define P0 where "P0 = [0..<N + 1] @ drop (N + 1) P"
  have init: "init_perm N P = Some P0"
    unfolding P0_def using P by (rule init_perm_identity)
  have ident: "\<forall>i\<le>N. P0 ! i = i"
    by (auto simp: P0_def nth_append simp del: upt_Suc)
  have run: "LUPDecompose ar A N Tol P = decompose_loop ar N Tol [0..<N] A P0"
    using N init by (simp add: LUPDecompose_def)
  have len: "N < length P0" using P by (simp add: P0_def)
  have Pr: "\<forall>k<N. P0 ! k < N" using ident by simp
  have PN: "P0 ! N < 2 ^ 32" using ident N by simp
  have cnt: "P' ! N = (N + exchange_count ar N Tol A P0 N) mod 2 ^ 32 \<and>
             (N < 2 ^ 31 \<longrightarrow> P' ! N - N = exchange_count ar N Tol A P0 N)"
    if ok: "LUPDecompose ar A N Tol P = Some (1, A', P')" for A' P'
  proof -
    from LUPDecompose_run [OF sq N P, of ar Tol, folded P0_def] ok
    have "state_at ar N Tol A P0 N = Some (A', P')"
      by (auto split: if_splits)
    from state_at_counter [OF sq len Pr PN _ this] ident
    have eq: "P' ! N = (N + exchange_count ar N Tol A P0 N) mod 2 ^ 32" by simp
    have "exchange_count ar N Tol A P0 N \<le> N" by (rule exchange_count_le)
    then have "N < 2 ^ 31 \<Longrightarrow> (N + exchange_count ar N Tol A P0 N) mod 2 ^ 32
                 = N + exchange_count ar N Tol A P0 N"
      by simp
    with eq show ?thesis by simp
  qed
  from init ident run cnt show ?thesis by blast
qed

theorem decompose_counts_exchanges_witness:
  "square [[1, 2], [3, 4 :: real]] 2 \<and> (2::nat) + 1 < 2 ^ 32 \<and> 2 < length [0, 0, 0 :: nat] \<and>
   init_perm 2 [0, 0, 0] = Some [0, 1, 2] \<and>
   LUPDecompose real_arith [[1, 2], [3, 4]] 2 (lit_tol real_arith) [0, 0, 0]
     = Some (1, [[3, 4], [1 / 3, 2 / 3]], [1, 0, 3]) \<and>
   exchange_count real_arith 2 (lit_tol real_arith) [[1, 2], [3, 4]] [0, 1, 2] 2 = 1"
proof -
  have h1: "square [[1, 2], [3, 4 :: real]] 2" by (simp add: square_def)
  have h2: "(2::nat) + 1 < 2 ^ 32" by simp
  have h3: "2 < length [0, 0, 0 :: nat]" by simp
  have i: "init_perm 2 [0, 0, 0] = Some [0, 1, 2]" by (simp add: run_model)
  have r: "LUPDecompose real_arith [[1, 2], [3, 4]] 2 (lit_tol real_arith) [0, 0, 0]
             = Some (1, [[3, 4], [1 / 3, 2 / 3]], [1, 0, 3])"
    by (simp add: run_model)
  from decompose_counts_exchanges [OF h1 h2 h3, of real_arith "lit_tol real_arith"] i r
  have "exchange_count real_arith 2 (lit_tol real_arith) [[1, 2], [3, 4]] [0, 1, 2] 2 = 1"
    by simp
  with h1 h2 h3 i r show ?thesis by simp
qed

text \<open>
  C5. Let \<open>Z\<close> be a notion of zero that the arithmetic respects (\<open>degeneracy_laws\<close>),
  and let the tolerance be above \<^verbatim>\<open>0.0\<close>. On an \<open>N\<close> by \<open>N\<close> matrix with a row of
  zeros, or with two rows that are the same, LUPDecompose returns 0 and LUPSolve returns
  error code 1, leaving \<open>x\<close> as it was.
\<close>

theorem singular_shapes_fail:
  assumes laws: "degeneracy_laws ar Z"
    and tol: "flt ar (lit0 ar) Tol" and tol12: "flt ar (lit0 ar) (lit_tol ar)"
    and sq: "square A N" and N: "N + 1 < 2 ^ 32" and P: "N < length P"
    and sing: "(\<exists>r<N. \<forall>k<N. Z (A ! r ! k)) \<or> (\<exists>r1<N. \<exists>r2<N. r1 \<noteq> r2 \<and> A ! r1 = A ! r2)"
  shows "(\<exists>A' P'. LUPDecompose ar A N Tol P = Some (0, A', P')) \<and>
         (\<exists>A'. LUPSolve ar x A b N = Some (1, x, A'))"
proof -
  from sing have doom: "doomed Z A N 0"
    unfolding doomed_def zero_row_def twin_rows_def by (metis le0)
  have md: "(N + 1) mod 2 ^ 32 = N + 1" using N by simp
  have P': "N < length (replicate (N + 1) (0::nat))" by simp
  from LUPDecompose_doomed [OF laws tol12 sq N P' doom] obtain A' Q where
    "LUPDecompose ar A N (lit_tol ar) (replicate (N + 1) 0) = Some (0, A', Q)" by blast
  then have "LUPSolve ar x A b N = Some (1, x, A')"
    unfolding LUPSolve_def Let_def md by simp
  with LUPDecompose_doomed [OF laws tol sq N P doom] show ?thesis by blast
qed

theorem singular_shapes_fail_witness:
  "degeneracy_laws real_arith (\<lambda>z. z = 0) \<and>
   flt real_arith (lit0 real_arith) (lit_tol real_arith) \<and>
   square [[1, 2], [1, 2 :: real]] 2 \<and> square [[0, 0], [1, 2 :: real]] 2 \<and>
   (2::nat) + 1 < 2 ^ 32 \<and> 2 < length [0, 0, 0 :: nat] \<and>
   [[1, 2], [1, 2 :: real]] ! 0 = [[1, 2], [1, 2]] ! 1 \<and>
   (\<exists>A' P'. LUPDecompose real_arith [[1, 2], [1, 2]] 2 (lit_tol real_arith) [0, 0, 0] = Some (0, A', P')) \<and>
   (\<exists>A'. LUPSolve real_arith [7, 8] [[1, 2], [1, 2]] [5, 6] 2 = Some (1, [7, 8], A')) \<and>
   (\<exists>A' P'. LUPDecompose real_arith [[0, 0], [1, 2]] 2 (lit_tol real_arith) [0, 0, 0] = Some (0, A', P')) \<and>
   (\<exists>A'. LUPSolve real_arith [7, 8] [[0, 0], [1, 2]] [5, 6] 2 = Some (1, [7, 8], A'))"
proof -
  have h1: "degeneracy_laws real_arith (\<lambda>z. z = 0)" by (rule real_degeneracy_laws)
  have h2: "flt real_arith (lit0 real_arith) (lit_tol real_arith)" by (simp add: real_arith_def)
  have h3: "square [[1, 2], [1, 2 :: real]] 2" by (simp add: square_def)
  have h3': "square [[0, 0], [1, 2 :: real]] 2" by (simp add: square_def)
  have h4: "(2::nat) + 1 < 2 ^ 32" by simp
  have h5: "2 < length [0, 0, 0 :: nat]" by simp
  have h6: "[[1, 2], [1, 2 :: real]] ! 0 = [[1, 2], [1, 2]] ! 1" by simp
  have h7: "(\<exists>r<2. \<forall>k<2. [[1, 2], [1, 2 :: real]] ! r ! k = 0) \<or>
            (\<exists>r1<2. \<exists>r2<2. r1 \<noteq> r2 \<and> [[1, 2], [1, 2 :: real]] ! r1 = [[1, 2], [1, 2]] ! r2)"
  proof (rule disjI2)
    have "(0::nat) < 2 \<and> (1::nat) < 2 \<and> (0::nat) \<noteq> 1 \<and> [[1, 2], [1, 2 :: real]] ! 0 = [[1, 2], [1, 2]] ! 1"
      by simp
    then show "\<exists>r1<2. \<exists>r2<2. r1 \<noteq> r2 \<and> [[1, 2], [1, 2 :: real]] ! r1 = [[1, 2], [1, 2]] ! r2"
      by blast
  qed
  have h7': "(\<exists>r<2. \<forall>k<2. [[0, 0], [1, 2 :: real]] ! r ! k = 0) \<or>
            (\<exists>r1<2. \<exists>r2<2. r1 \<noteq> r2 \<and> [[0, 0], [1, 2 :: real]] ! r1 = [[0, 0], [1, 2]] ! r2)"
  proof (rule disjI1)
    have "(0::nat) < 2 \<and> (\<forall>k<2. [[0, 0], [1, 2 :: real]] ! 0 ! k = 0)"
      by (simp add: less_Suc_eq numeral_2_eq_2)
    then show "\<exists>r<2. \<forall>k<2. [[0, 0], [1, 2 :: real]] ! r ! k = 0" by blast
  qed
  from singular_shapes_fail [OF h1 h2 h2 h3 h4 h5 h7, of "[7, 8]" "[5, 6]"]
    singular_shapes_fail [OF h1 h2 h2 h3' h4 h5 h7', of "[7, 8]" "[5, 6]"]
    h1 h2 h3 h3' h4 h5 h6
  show ?thesis by blast
qed

text \<open>
  C6. On \<open>xSamples = [1,1,1]\<close>, \<open>ySamples = [1,2,3]\<close>, \<open>degree = 1\<close> the normal matrix
  is \<open>[[3,3],[3,3]]\<close>, whose two rows are the same, and polyFit returns error code 1;
  the coefficient vector is the caller's vector resized to two entries. This holds in
  every arithmetic that is exact on the integers \<open>0, 1, 2, 3, 6\<close>, as IEEE 754 doubles
  are.
\<close>

theorem polyFit_duplicate_x_scenario:
  assumes ex: "exact_on ar dbl {0, 1, 2, 3, 6}"
  shows "normal_equations ar [dbl 1, dbl 1, dbl 1] [dbl 1, dbl 2, dbl 3] 1
           = Some ([[dbl 3, dbl 3], [dbl 3, dbl 3]], [dbl 6, dbl 6]) \<and>
         polyFit ar outPolCoef [dbl 1, dbl 1, dbl 1] [dbl 1, dbl 2, dbl 3] 1
           = Some (1, resize outPolCoef 2 (dbl 0))"
  by (simp add: run_loops exact_onD [OF ex])

theorem polyFit_duplicate_x_scenario_witness:
  "exact_on real_arith (\<lambda>a. a) {0, 1, 2, 3, 6} \<and>
   normal_equations real_arith [1, 1, 1] [1, 2, 3] 1 = Some ([[3, 3], [3, 3]], [6, 6]) \<and>
   polyFit real_arith [] [1, 1, 1] [1, 2, 3] 1 = Some (1, [0, 0])"
  using polyFit_duplicate_x_scenario [OF real_exact_on, of "[]"] real_exact_on
  by (simp add: resize_def replicate_numeral_step)

text \<open>
  C7. Let pass \<open>i\<close> of the outer loop start on the matrix \<open>B\<close>, and let the comparison
  \<^verbatim>\<open>>\<close> order the absolute values of column \<open>i\<close> of \<open>B\<close> in the rows \<open>i..N-1\<close> (a
  strict weak order, none of them below \<^verbatim>\<open>0.0\<close>: for doubles, a column without NaN).
  The pivot search returns the lowest row index \<open>imax\<close> of \<open>i..N-1\<close> whose entry attains
  the maximum absolute value of the range: no row of the range exceeds it, it exceeds
  every row of the range before it, and it is the row \<open>first_max_row\<close> names;
  \<^verbatim>\<open>maxA\<close> is the absolute value of its entry (or \<^verbatim>\<open>0.0\<close>, when that is not above
  \<^verbatim>\<open>0.0\<close>). Whenever a call of LUPDecompose reaches pass \<open>i\<close> with \<open>B\<close> and the
  permutation vector \<open>Q\<close>: if \<^verbatim>\<open>maxA\<close> is below the tolerance, the call returns 0
  there, leaving \<open>B\<close> and \<open>Q\<close>; otherwise row \<open>imax\<close> is the pivot row: the pass
  exchanges it with row \<open>i\<close>, and \<^verbatim>\<open>P[imax]\<close> with \<^verbatim>\<open>P[i]\<close>, eliminates column \<open>i\<close>
  with it, and in what the call leaves, whatever it returns, row \<open>i\<close> of the matrix is
  row \<open>imax\<close> of \<open>B\<close> and entry \<open>i\<close> of the permutation vector is \<open>Q[imax]\<close>.
\<close>

theorem pivot_is_first_maximal_row:
  assumes sq: "square B N" and iN: "i < N"
    and swo: "strict_weak_order_on (insert (lit0 ar) (column_abs ar B N i)) (fgt ar)"
    and nonneg: "\<forall>a \<in> column_abs ar B N i. \<not> fgt ar (lit0 ar) a"
  shows "\<exists>m imax. find_pivot ar B N i = Some (m, imax) \<and> i \<le> imax \<and> imax < N \<and>
           (\<forall>k. i \<le> k \<and> k < N \<longrightarrow> \<not> fgt ar (fabs ar (B ! k ! i)) (fabs ar (B ! imax ! i))) \<and>
           (\<forall>k. i \<le> k \<and> k < imax \<longrightarrow> fgt ar (fabs ar (B ! imax ! i)) (fabs ar (B ! k ! i))) \<and>
           first_max_row ar B N i = Some imax \<and>
           (m = fabs ar (B ! imax ! i) \<or>
            m = lit0 ar \<and> \<not> fgt ar (fabs ar (B ! imax ! i)) (lit0 ar)) \<and>
           (\<forall>A P Q. square A N \<and> N + 1 < 2 ^ 32 \<and> N < length P \<and>
                state_at ar N Tol A ([0..<N + 1] @ drop (N + 1) P) i = Some (B, Q) \<longrightarrow>
              (if flt ar m Tol then LUPDecompose ar A N Tol P = Some (0, B, Q)
               else \<exists>B2 code A' P'.
                      eliminate ar N i (swap_mat B i imax) = Some B2 \<and> B2 ! i = B ! imax \<and>
                      state_at ar N Tol A ([0..<N + 1] @ drop (N + 1) P) (Suc i)
                        = Some (B2, swap_perm Q N i imax) \<and>
                      LUPDecompose ar A N Tol P = Some (code, A', P') \<and>
                      A' ! i = B ! imax \<and> P' ! i = Q ! imax))"
proof -
  define S where "S = insert (lit0 ar) (column_abs ar B N i)"
  define a where "a k = fabs ar (B ! k ! i)" for k
  obtain m imax where piv: "running_max ar B i (N - i) = (m, imax)"
    by (cases "running_max ar B i (N - i)")
  have fp: "find_pivot ar B N i = Some (m, imax)"
    using find_pivot_running_max [OF sq, of i ar] iN piv by simp
  have lo: "i \<le> imax" using running_max_index [of i ar B "N - i"] piv by simp
  have hi: "imax < N" using running_max_index_less [OF iN, of ar B] piv by simp
  have inS: "a k \<in> S" if "i \<le> k" "k < N" for k
    using that by (simp add: S_def column_abs_def a_def)
  have ntr: "\<not> fgt ar x z" if "x \<in> S" "y \<in> S" "z \<in> S" "\<not> fgt ar x y" "\<not> fgt ar y z" for x y z
    using swo that unfolding strict_weak_order_on_def S_def by blast
  have irr: "\<not> fgt ar x x" if "x \<in> S" for x
    using swo that unfolding strict_weak_order_on_def S_def by blast
  from running_max_order [OF swo, of "N - i"] iN piv have
    below: "\<And>k. i \<le> k \<Longrightarrow> k < N \<Longrightarrow> \<not> fgt ar (a k) m"
    and first: "(m = lit0 ar \<and> imax = i) \<or>
       (i \<le> imax \<and> imax < N \<and> m = a imax \<and> (\<forall>k. i \<le> k \<and> k < imax \<longrightarrow> fgt ar m (a k)))"
    by (simp_all add: a_def)
  have top: "\<not> fgt ar (a k) (a imax)" if k: "i \<le> k" "k < N" for k
  proof (cases "m = a imax")
    case True
    with below [OF k] show ?thesis by simp
  next
    case False
    with first have mi: "m = lit0 ar" "imax = i" by auto
    have "\<not> fgt ar (lit0 ar) (a i)"
      using nonneg iN by (simp add: column_abs_def a_def)
    from ntr [OF inS [OF k] _ inS [OF order_refl iN] _ this] below [OF k] mi
    show ?thesis by (simp add: S_def)
  qed
  have low: "fgt ar (a imax) (a k)" if "i \<le> k" "k < imax" for k
    using first that by auto
  have tie: "m = a imax \<or> m = lit0 ar \<and> \<not> fgt ar (a imax) (lit0 ar)"
    using first below [OF lo hi] by auto
  have fm: "first_max_row ar B N i = Some imax"
    unfolding first_max_row_def
  proof (rule find_upt_first [OF lo hi])
    show "\<forall>k'\<in>set [i..<N]. \<not> fgt ar (fabs ar (B ! k' ! i)) (fabs ar (B ! imax ! i))"
      using top by (simp add: a_def)
  next
    fix j assume j: "i \<le> j" "j < imax"
    from low [OF j] lo hi have "fgt ar (a imax) (a j)" "imax \<in> set [i..<N]" by simp_all
    then show "\<not> (\<forall>k'\<in>set [i..<N]. \<not> fgt ar (fabs ar (B ! k' ! i)) (fabs ar (B ! j ! i)))"
      unfolding a_def by blast
  qed
  have run: "if flt ar m Tol then LUPDecompose ar A N Tol P = Some (0, B, Q)
             else \<exists>B2 code A' P'.
                    eliminate ar N i (swap_mat B i imax) = Some B2 \<and> B2 ! i = B ! imax \<and>
                    state_at ar N Tol A ([0..<N + 1] @ drop (N + 1) P) (Suc i)
                      = Some (B2, swap_perm Q N i imax) \<and>
                    LUPDecompose ar A N Tol P = Some (code, A', P') \<and>
                    A' ! i = B ! imax \<and> P' ! i = Q ! imax"
    if h: "square A N \<and> N + 1 < 2 ^ 32 \<and> N < length P \<and>
           state_at ar N Tol A ([0..<N + 1] @ drop (N + 1) P) i = Some (B, Q)"
    for A :: "'a matrix" and P Q :: "nat list"
  proof -
    define P0 where "P0 = [0..<N + 1] @ drop (N + 1) P"
    from h have sqA: "square A N" and N: "N + 1 < 2 ^ 32" and P: "N < length P"
      and at: "state_at ar N Tol A P0 i = Some (B, Q)"
      by (simp_all add: P0_def)
    have P0: "N < length P0" using P by (simp add: P0_def)
    have Pr: "\<forall>k<N. P0 ! k < N" by (simp add: P0_def nth_append)
    from iN have iN': "i \<le> N" by simp
    from state_at_invariant [OF sqA P0 Pr iN' at] P0 have Q: "N < length Q" by simp
    have dec: "LUPDecompose ar A N Tol P = decompose_loop ar N Tol [i..<N] B Q"
      using N init_perm_identity [OF P] decompose_from_state [OF iN' at]
      by (simp add: LUPDecompose_def P0_def)
    note facts = pivot_stage_square [OF sq iN Q piv]
    show ?thesis
    proof (cases "flt ar m Tol")
      case True
      from facts(4) [OF True] have "decompose_loop ar N Tol [i..<N] B Q = Some (0, B, Q)"
        using iN by (simp add: upt_conv_Cons)
      with True dec show ?thesis by simp
    next
      case False
      from facts(5) [OF False] obtain B2 where
        el: "eliminate ar N i (swap_mat B i imax) = Some B2" and sq2: "square B2 N"
        and st: "pivot_stage ar N Tol i B Q = Some (Eliminated B2 (swap_perm Q N i imax))"
        by blast
      from pass_keeps_rows [OF sq iN Q st] fp have
        row: "B2 ! i = B ! imax" and prm: "swap_perm Q N i imax ! i = Q ! imax"
        by auto
      have nxt: "state_at ar N Tol A P0 (Suc i) = Some (B2, swap_perm Q N i imax)"
        using at st by simp
      have Q2: "N < length (swap_perm Q N i imax)" using Q by (simp add: length_swap_perm)
      have dec2: "LUPDecompose ar A N Tol P
                    = decompose_loop ar N Tol [Suc i..<N] B2 (swap_perm Q N i imax)"
        using dec st iN by (simp add: upt_conv_Cons)
      from LUPDecompose_run [OF sqA N P, of ar Tol] obtain code A' P' where
        res: "LUPDecompose ar A N Tol P = Some (code, A', P')" by blast
      from decompose_keeps_rows [OF sq2 Q2 _ res [unfolded dec2]] iN
      have "A' ! i = B2 ! i \<and> P' ! i = swap_perm Q N i imax ! i" by simp
      with row prm have "A' ! i = B ! imax" "P' ! i = Q ! imax" by simp_all
      with False el row nxt res show ?thesis
        unfolding P0_def by auto
    qed
  qed
  from fp lo hi top low fm tie run show ?thesis
    unfolding a_def by blast
qed

theorem pivot_is_first_maximal_row_witness:
  "square [[1, 0, 0, 0], [0, 1, 0, 0], [0, - 3, 0, 1], [0, 3, 1, 0 :: real]] 4 \<and> (1::nat) < 4 \<and>
   (4::nat) + 1 < 2 ^ 32 \<and> 4 < length [0, 0, 0, 0, 0 :: nat] \<and>
   state_at real_arith 4 (lit_tol real_arith)
      [[1, 0, 0, 0], [0, 1, 0, 0], [0, - 3, 0, 1], [0, 3, 1, 0]] [0, 1, 2, 3, 4] 1
     = Some ([[1, 0, 0, 0], [0, 1, 0, 0], [0, - 3, 0, 1], [0, 3, 1, 0]], [0, 1, 2, 3, 4]) \<and>
   find_pivot real_arith [[1, 0, 0, 0], [0, 1, 0, 0], [0, - 3, 0, 1], [0, 3, 1, 0]] 4 1 = Some (3, 2) \<and>
   first_max_row real_arith [[1, 0, 0, 0], [0, 1, 0, 0], [0, - 3, 0, 1], [0, 3, 1, 0]] 4 1 = Some 2 \<and>
   LUPDecompose real_arith [[1, 0, 0, 0], [0, 1, 0, 0], [0, - 3, 0, 1], [0, 3, 1, 0]] 4
      (lit_tol real_arith) [0, 0, 0, 0, 0]
     = Some (1, [[1, 0, 0, 0], [0, - 3, 0, 1], [0, - 1, 1, 1], [0, - (1 / 3), 0, 1 / 3]],
             [0, 2, 3, 1, 6]) \<and>
   (\<exists>code A' P'.
      LUPDecompose real_arith [[1, 0, 0, 0], [0, 1, 0, 0], [0, - 3, 0, 1], [0, 3, 1, 0]] 4
        (lit_tol real_arith) [0, 0, 0, 0, 0] = Some (code, A', P') \<and>
      A' ! 1 = [0, - 3, 0, 1] \<and> P' ! 1 = 2)"
proof -
  define A :: "real matrix" where "A = [[1, 0, 0, 0], [0, 1, 0, 0], [0, - 3, 0, 1], [0, 3, 1, 0]]"
  define Q :: "nat list" where "Q = [0, 1, 2, 3, 4]"
  define P :: "nat list" where "P = [0, 0, 0, 0, 0]"
  define tol where "tol = lit_tol real_arith"
  have h1: "square A 4" by (simp add: square_def A_def)
  have h2: "(1::nat) < 4" by simp
  have h3: "strict_weak_order_on (insert (lit0 real_arith) (column_abs real_arith A 4 1))
              (fgt real_arith)"
    by (rule real_strict_weak_order)
  have h4: "\<forall>a \<in> column_abs real_arith A 4 1. \<not> fgt real_arith (lit0 real_arith) a"
    by (auto simp: column_abs_def real_arith_def)
  have h5: "(4::nat) + 1 < 2 ^ 32" "4 < length P" by (simp_all add: P_def)
  have P0: "[0..<4 + 1] @ drop (4 + 1) P = Q"
    by (simp add: P_def Q_def upt_conv_Cons)
  have at: "state_at real_arith 4 tol A Q (Suc 0) = Some (A, Q)"
    by (simp add: run_model A_def Q_def tol_def)
  have fp: "find_pivot real_arith A 4 1 = Some (3, 2)"
    by (simp add: run_model A_def)
  have r: "LUPDecompose real_arith A 4 tol P
             = Some (1, [[1, 0, 0, 0], [0, - 3, 0, 1], [0, - 1, 1, 1], [0, - (1 / 3), 0, 1 / 3]],
                     [0, 2, 3, 1, 6])"
    by (simp add: run_model A_def P_def tol_def)
  have nd: "\<not> flt real_arith 3 tol" by (simp add: real_arith_def tol_def)
  from pivot_is_first_maximal_row [OF h1 h2 h3 h4, of tol] fp
  have fm: "first_max_row real_arith A 4 1 = Some 2"
    and link: "\<forall>A0 P Q. square A0 4 \<and> (4::nat) + 1 < 2 ^ 32 \<and> 4 < length P \<and>
                state_at real_arith 4 tol A0 ([0..<4 + 1] @ drop (4 + 1) P) 1 = Some (A, Q) \<longrightarrow>
              (if flt real_arith 3 tol then LUPDecompose real_arith A0 4 tol P = Some (0, A, Q)
               else \<exists>B2 code A' P'.
                      eliminate real_arith 4 1 (swap_mat A 1 2) = Some B2 \<and> B2 ! 1 = A ! 2 \<and>
                      state_at real_arith 4 tol A0 ([0..<4 + 1] @ drop (4 + 1) P) (Suc 1)
                        = Some (B2, swap_perm Q 4 1 2) \<and>
                      LUPDecompose real_arith A0 4 tol P = Some (code, A', P') \<and>
                      A' ! 1 = A ! 2 \<and> P' ! 1 = Q ! 2)"
    by auto
  from link [rule_format, of A P Q] h1 h5 at nd
  obtain code A' P' where
    "LUPDecompose real_arith A 4 tol P = Some (code, A', P')" "A' ! 1 = A ! 2" "P' ! 1 = Q ! 2"
    unfolding P0 by auto
  then have ex: "\<exists>code A' P'. LUPDecompose real_arith A 4 tol P = Some (code, A', P') \<and>
                   A' ! 1 = [0, - 3, 0, 1] \<and> P' ! 1 = 2"
    by (auto simp: A_def Q_def)
  from h1 h2 h5 at fp fm r ex show ?thesis
    unfolding A_def Q_def P_def tol_def by simp
qed

text \<open>
  C8, as amended. Two calls of polyFit with the same samples and degree, on any two
  output vectors, return the same error code. When that code is 0 they leave the same
  coefficient vector, whatever the output vectors held before: every entry is written
  before it is read. When it is 1 each call leaves its own output vector, resized to
  \<^verbatim>\<open>nCoef\<close> entries and otherwise untouched. A second call on the vector the first
  call left returns the same code and leaves the same vector. The statement holds in
  every arithmetic.
\<close>

theorem polyFit_deterministic:
  "(case polyFit ar outA inX inY d of
      None \<Rightarrow> polyFit ar outB inX inY d = None
    | Some (e, c) \<Rightarrow>
        if e = 0 then polyFit ar outB inX inY d = Some (0, c)
        else e = 1 \<and> c = resize outA (unat (d + 1)) (lit0 ar) \<and>
             polyFit ar outB inX inY d = Some (1, resize outB (unat (d + 1)) (lit0 ar))) \<and>
   (\<forall>e c. polyFit ar outA inX inY d = Some (e, c) \<longrightarrow> polyFit ar c inX inY d = Some (e, c))"
proof (intro conjI allI impI)
  show "case polyFit ar outA inX inY d of
      None \<Rightarrow> polyFit ar outB inX inY d = None
    | Some (e, c) \<Rightarrow>
        if e = 0 then polyFit ar outB inX inY d = Some (0, c)
        else e = 1 \<and> c = resize outA (unat (d + 1)) (lit0 ar) \<and>
             polyFit ar outB inX inY d = Some (1, resize outB (unat (d + 1)) (lit0 ar))"
    by (rule polyFit_two_calls)
next
  fix e c
  assume r: "polyFit ar outA inX inY d = Some (e, c)"
  from polyFit_two_calls [where ar = ar and outA = outA and inX = inX and inY = inY and d = d
      and outB = c] r
  show "polyFit ar c inX inY d = Some (e, c)"
    by (auto simp: resize_resize split: if_splits)
qed

theorem polyFit_deterministic_witness:
  "polyFit real_arith [7, 7, 7] [0, 1, 2, 3] [1, 3, 7, 13] 2 = Some (0, [1, 1, 1]) \<and>
   polyFit real_arith [] [0, 1, 2, 3] [1, 3, 7, 13] 2 = Some (0, [1, 1, 1]) \<and>
   polyFit real_arith [1, 1, 1] [0, 1, 2, 3] [1, 3, 7, 13] 2 = Some (0, [1, 1, 1])"
proof -
  have a: "polyFit real_arith [7, 7, 7] [0, 1, 2, 3] [1, 3, 7, 13] 2 = Some (0, [1, 1, 1])"
    by (simp add: run_model)
  note t = polyFit_deterministic [where ar = real_arith and outA = "[7, 7, 7]"
      and inX = "[0, 1, 2, 3]" and inY = "[1, 3, 7, 13]" and d = 2 and outB = "[]"]
  from t a have b: "polyFit real_arith [] [0, 1, 2, 3] [1, 3, 7, 13] 2 = Some (0, [1, 1, 1])"
    by simp
  from t a have "polyFit real_arith [1, 1, 1] [0, 1, 2, 3] [1, 3, 7, 13] 2 = Some (0, [1, 1, 1])"
    by blast
  with a b show ?thesis by simp
qed

text \<open>
  C8 as stated, the same coefficient vector from any two calls, fails on the failure
  path: with duplicate \<open>x\<close> values the two calls below return error code 1 and leave
  different vectors, the ones their callers passed. The run is that of C6, in exact
  arithmetic.
\<close>

theorem polyFit_deterministic_counterexample:
  "polyFit real_arith [7, 7] [1, 1, 1] [1, 2, 3] 1 = Some (1, [7, 7]) \<and>
   polyFit real_arith [9, 9] [1, 1, 1] [1, 2, 3] 1 = Some (1, [9, 9]) \<and>
   [7, 7 :: real] \<noteq> [9, 9]"
  by (simp add: run_model)

text \<open>
  C9. When the decomposition that LUPSolve runs returns 0, LUPSolve returns error code 1
  and \<open>x\<close> is exactly what it was at entry; the matrix is what the decomposition left.
  The statement holds in every arithmetic.
\<close>

theorem LUPSolve_failure_keeps_x:
  "LUPDecompose ar A N (lit_tol ar) (replicate ((N + 1) mod 2 ^ 32) 0) = Some (0, A', P')
   \<Longrightarrow> LUPSolve ar x A b N = Some (1, x, A')"
  by (simp add: LUPSolve_def)

theorem LUPSolve_failure_keeps_x_witness:
  "LUPDecompose real_arith [[3, 3], [3, 3]] 2 (lit_tol real_arith) (replicate ((2 + 1) mod 2 ^ 32) 0)
     = Some (0, [[3, 3], [1, 0]], [0, 1, 2])
   \<and> LUPSolve real_arith [7, 8] [[3, 3], [3, 3]] [6, 6] 2 = Some (1, [7, 8], [[3, 3], [1, 0]])"
proof -
  have h: "LUPDecompose real_arith [[3, 3], [3, 3]] 2 (lit_tol real_arith)
             (replicate ((2 + 1) mod 2 ^ 32) 0) = Some (0, [[3, 3], [1, 0]], [0, 1, 2])"
    by (simp add: run_model)
  from LUPSolve_failure_keeps_x [OF h] h show ?thesis by simp
qed

text \<open>
  C10, as amended. For empty samples and a degree \<open>d\<close> below \<open>2 ^ 31\<close>, in an arithmetic
  where \<^verbatim>\<open>fabs(0.0) > 0.0\<close> is false and \<^verbatim>\<open>0.0 < 1e-12\<close> is true, polyFit builds the
  all-zero \<open>d + 1\<close> by \<open>d + 1\<close> matrix and returns error code 1; the coefficient vector is
  the caller's vector resized to \<open>d + 1\<close> entries.
\<close>

theorem polyFit_empty_input:
  fixes ar :: "'a arith" and outPolCoef :: "'a list" and d :: "32 word"
  assumes d: "unat d < 2 ^ 31"
    and z: "\<not> fgt ar (fabs ar (lit0 ar)) (lit0 ar)" and t: "flt ar (lit0 ar) (lit_tol ar)"
  shows "normal_equations ar [] [] d
           = Some (replicate (unat d + 1) (replicate (unat d + 1) (lit0 ar)),
                   replicate (unat d + 1) (lit0 ar)) \<and>
         polyFit ar outPolCoef [] [] d = Some (1, resize outPolCoef (unat d + 1) (lit0 ar)) \<and>
         length (resize outPolCoef (unat d + 1) (lit0 ar)) = unat d + 1"
proof -
  define N where "N = unat d + 1"
  define XX where "XX = replicate N (replicate N (lit0 ar))"
  have ne: "normal_equations ar [] [] d = Some (XX, replicate N (lit0 ar))"
    using normal_equations_run [where inX = "[]" and inY = "[]" and ar = ar, OF refl d]
    by (simp add: normal_matrix_empty normal_vector_empty XX_def N_def)
  have sq: "square XX N" by (simp add: XX_def square_def)
  have "running_max ar XX 0 N = (lit0 ar, 0)"
    using z by (rule running_max_zero_column) (simp add: XX_def)
  then have "pivot_at ar N (lit_tol ar) XX [0..<N + 1] 0 = Some (lit0 ar, 0)"
    using find_pivot_running_max [OF sq, of 0 ar] by (simp add: pivot_at_def)
  with t have "degenerate_at ar N (lit_tol ar) XX [0..<N + 1] 0"
    by (simp add: degenerate_at_def)
  then have deg: "\<exists>i<N. degenerate_at ar N (lit_tol ar) XX [0..<N + 1] i"
    by (auto simp: N_def)
  from polyFit_run [where inX = "[]" and inY = "[]" and ar = ar and outPolCoef = outPolCoef, OF refl d] deg
  have "polyFit ar outPolCoef [] [] d = Some (1, resize outPolCoef N (lit0 ar))"
    by (auto simp: normal_matrix_empty XX_def N_def)
  with ne show ?thesis by (simp add: XX_def N_def length_resize)
qed

theorem polyFit_empty_input_witness:
  "unat (1 :: 32 word) < 2 ^ 31 \<and>
   \<not> fgt real_arith (fabs real_arith (lit0 real_arith)) (lit0 real_arith) \<and>
   flt real_arith (lit0 real_arith) (lit_tol real_arith) \<and>
   polyFit real_arith [5] [] [] 1 = Some (1, [5, 0])"
proof -
  have h1: "unat (1 :: 32 word) < 2 ^ 31" by simp
  have h2: "\<not> fgt real_arith (fabs real_arith (lit0 real_arith)) (lit0 real_arith)"
    by (simp add: real_arith_def)
  have h3: "flt real_arith (lit0 real_arith) (lit_tol real_arith)"
    by (simp add: real_arith_def)
  from polyFit_empty_input [OF h1 h2 h3, of "[5]"]
  have "polyFit real_arith [5] [] [] 1 = Some (1, [5, 0])"
    by (simp add: resize_def real_arith_def)
  with h1 h2 h3 show ?thesis by simp
qed

text \<open>
  C10 as stated, for any degree, fails at \<open>d = 2 ^ 32 - 1\<close>: \<^verbatim>\<open>nCoef\<close> wraps to 0, the
  decomposition of the empty matrix returns 1, and polyFit returns error code 0 with an
  empty coefficient vector. It fails at \<open>d = 2 ^ 31\<close> too: \<^verbatim>\<open>nPower\<close> wraps to 1 there,
  and \<^verbatim>\<open>xxSum[1]\<close> is read out of range. No arithmetic operation is run on these
  inputs.
\<close>

theorem polyFit_empty_input_counterexample:
  "polyFit real_arith [] [] [] (- 1) = Some (0, []) \<and>
   polyFit real_arith [] [] [] (2 ^ 31) = None"
  by (simp add: polyFit_def normal_equations_def LUPSolve_def LUPDecompose_def init_perm_def
        resize_def back_indices_def assemble_entry_def rd_def wr_def rd2_def wr2_def
        for_loop_upt_step)
end
